theory Spec2Isabelle
  imports Main
begin

section \<open>The syntax tree seen by the rule consistent-unwrap\<close>

text \<open>
  The rule \<^verbatim>\<open>consistent-unwrap\<close> (file \<^verbatim>\<open>rules/consistent-unwrap.ts\<close>) reads only a few
  node kinds of the TSESTree. Every node carries a \<open>node_id\<close>, its own in the tree: the
  rule compares function nodes by reference (\<^verbatim>\<open>wrappedScope.fn !== fn\<close>), and two
  references to one object are here two equal terms. Node kinds the rule never
  distinguishes are \<open>OtherNode\<close> (a literal, a statement, a spread element, ...),
  respectively \<open>TSOtherType\<close> and \<open>NameOther\<close>. A function literal is kept without its
  body: the host walks the body and calls the listeners, and these calls are the rule's
  input.
\<close>

type_synonym node_id = nat

text \<open>\<^verbatim>\<open>TSTypeQuery.exprName\<close>: an identifier, or a qualified name, \<^verbatim>\<open>this\<close>, an import type.\<close>

datatype entityName =
    NameIdentifier node_id string
  | NameOther node_id

datatype typeNode =
    TSTypeQuery node_id entityName
  | TSUnionType node_id "typeNode list"
  | TSOtherType node_id

text \<open>\<^verbatim>\<open>TSTypeParameterInstantiation\<close> with its \<^verbatim>\<open>params\<close>.\<close>

datatype typeArgs = TSTypeParameterInstantiation node_id "typeNode list"

text \<open>
  \<open>CallExpression id callee typeParameters arguments\<close>; the two function literals carry
  their \<^verbatim>\<open>async\<close> flag.
\<close>

datatype expr =
    Identifier node_id string
  | CallExpression node_id expr "typeArgs option" "expr list"
  | AwaitExpression node_id expr
  | FunctionExpression node_id bool
  | ArrowFunctionExpression node_id bool
  | OtherNode node_id

fun params :: "typeArgs \<Rightarrow> typeNode list" where
  "params (TSTypeParameterInstantiation i ps) = ps"

text \<open>\<^verbatim>\<open>n.type === ANT.Identifier\<close>, giving \<^verbatim>\<open>n.name\<close>.\<close>

fun identifierName :: "expr \<Rightarrow> string option" where
  "identifierName (Identifier i nm) = Some nm"
| "identifierName e = None"

text \<open>\<^verbatim>\<open>fn.type === ANT.FunctionExpression || fn.type === ANT.ArrowFunctionExpression\<close>.\<close>

fun isFunctionNode :: "expr \<Rightarrow> bool" where
  "isFunctionNode (FunctionExpression i a) = True"
| "isFunctionNode (ArrowFunctionExpression i a) = True"
| "isFunctionNode e = False"

fun async :: "expr \<Rightarrow> bool" where
  "async (FunctionExpression i a) = a"
| "async (ArrowFunctionExpression i a) = a"
| "async e = False"

text \<open>\<^verbatim>\<open>arg.type === ANT.AwaitExpression ? arg.argument : arg\<close>: one await is peeled, not more.\<close>

fun peelAwait :: "expr \<Rightarrow> expr" where
  "peelAwait (AwaitExpression i a) = a"
| "peelAwait e = e"

text \<open>
  The negation of \<^verbatim>\<open>callExpr.type !== ANT.CallExpression || callExpr.callee.type !== ANT.Identifier\<close>,
  giving \<^verbatim>\<open>callExpr.callee.name\<close>.
\<close>

fun calledIdentifier :: "expr \<Rightarrow> string option" where
  "calledIdentifier (CallExpression i cal tps args) = identifierName cal"
| "calledIdentifier e = None"

text \<open>
  The negation of \<^verbatim>\<open>tnode.type !== ANT.TSTypeQuery || tnode.exprName.type !== ANT.Identifier\<close>,
  giving \<^verbatim>\<open>tnode.exprName.name\<close>.
\<close>

fun typeofName :: "typeNode \<Rightarrow> string option" where
  "typeofName (TSTypeQuery i (NameIdentifier j nm)) = Some nm"
| "typeofName t = None"

text \<open>\<^verbatim>\<open>param.type === ANT.TSUnionType ? param.types : [param]\<close>.\<close>

fun typesOf :: "typeNode \<Rightarrow> typeNode list" where
  "typesOf (TSUnionType i ts) = ts"
| "typesOf t = [t]"

section \<open>JavaScript's Map\<close>

text \<open>
  A \<^verbatim>\<open>Map\<close> iterates in insertion order, and \<^verbatim>\<open>set\<close> on a key already present
  replaces the value and keeps the key's position: an association list with that update.
\<close>

fun Map_set :: "'k \<Rightarrow> 'v \<Rightarrow> ('k \<times> 'v) list \<Rightarrow> ('k \<times> 'v) list" where
  "Map_set k v [] = [(k, v)]"
| "Map_set k v ((k', v') # m) =
     (if k' = k then (k', v) # m else (k', v') # Map_set k v m)"

fun Map_has :: "'k \<Rightarrow> ('k \<times> 'v) list \<Rightarrow> bool" where
  "Map_has k [] = False"
| "Map_has k ((k', v') # m) = (k' = k \<or> Map_has k m)"

fun Map_get :: "'k \<Rightarrow> ('k \<times> 'v) list \<Rightarrow> 'v option" where
  "Map_get k [] = None"
| "Map_get k ((k', v') # m) = (if k' = k then Some v' else Map_get k m)"

definition Map_keys :: "('k \<times> 'v) list \<Rightarrow> 'k list" where
  "Map_keys m = map fst m"

section \<open>Diagnostics\<close>

datatype messageId =
    badWrap
  | badUnwrap
  | missingTypeParamInWrap
  | badUnwrapArg
  | badWrapTypeArg
  | duplicatedWrapArg
  | unwrapNotInWrap
  | wrappedFnNotUnwrapped

text \<open>The node a diagnostic is anchored at (\<^verbatim>\<open>node\<close> of \<^verbatim>\<open>context.report\<close>).\<close>

datatype anchor =
    AtExpr expr
  | AtType typeNode
  | AtTypeArgs typeArgs

text \<open>The two edits the rule asks of the fixer.\<close>

datatype fix_edit =
    insertTextAfter anchor string
  | replaceText anchor string

record report =
  messageId :: messageId
  node :: anchor
  fix_of :: "fix_edit option"

section \<open>The rule's state\<close>

record options =
  wrapName :: string
  unwrapName :: string

text \<open>
  \<^verbatim>\<open>WrapScope\<close>. The field \<^verbatim>\<open>upper\<close> links the scopes into a stack: the stack is the
  list \<open>wrappedScope\<close> of the state, its head the active scope, \<open>[]\<close> for \<^verbatim>\<open>null\<close>.
\<close>

record WrapScope =
  fn :: expr
  inFn :: bool
  callee :: expr
  typeParameters :: "typeArgs option"
  unwrappedFns :: "(string \<times> expr) list"
  wrappedFns :: "(string \<times> typeNode) list"

text \<open>The variable \<^verbatim>\<open>wrappedScope\<close> of \<^verbatim>\<open>create\<close> and the diagnostics reported so far.\<close>

record rule_state =
  wrappedScope :: "WrapScope list"
  reports :: "report list"

definition initial :: rule_state where
  "initial = \<lparr>wrappedScope = [], reports = []\<rparr>"

definition context_report :: "report \<Rightarrow> rule_state \<Rightarrow> rule_state" where
  "context_report r st = st\<lparr>reports := reports st @ [r]\<rparr>"

section \<open>The handlers\<close>

text \<open>
  \<^verbatim>\<open>onWrapCall\<close>. The node's \<^verbatim>\<open>parent\<close> is a back reference, passed beside the node. The
  visitor calls the handler on call expressions only.
\<close>

fun onWrapCall :: "options \<Rightarrow> expr \<Rightarrow> expr option \<Rightarrow> rule_state \<Rightarrow> rule_state" where
  "onWrapCall opts (CallExpression i cal tps args) parent st =
     (if identifierName cal \<noteq> Some (wrapName opts) then st
      else (case parent of
          None \<Rightarrow> st
        | Some (CallExpression pid pcal ptps pargs) \<Rightarrow>
            (case pargs of
               [f] \<Rightarrow>
                 (if \<not> isFunctionNode f then st
                  else if \<not> async f then st
                  else st\<lparr>wrappedScope :=
                    \<lparr>fn = f, inFn = False, callee = cal, typeParameters = tps,
                     unwrappedFns = [], wrappedFns = []\<rparr> # wrappedScope st\<rparr>)
             | _ \<Rightarrow> st)
        | Some _ \<Rightarrow> st))"
| "onWrapCall opts e parent st = st"

definition enterFunction :: "expr \<Rightarrow> rule_state \<Rightarrow> rule_state" where
  "enterFunction f st =
     (case wrappedScope st of
        [] \<Rightarrow> st
      | sc # upper \<Rightarrow>
          if fn sc \<noteq> f then st
          else st\<lparr>wrappedScope := sc\<lparr>inFn := True\<rparr> # upper\<rparr>)"

fun onUnwrapCall :: "options \<Rightarrow> expr \<Rightarrow> rule_state \<Rightarrow> rule_state" where
  "onUnwrapCall opts (CallExpression i cal tps args) st =
     (case wrappedScope st of
        [] \<Rightarrow> st
      | sc # upper \<Rightarrow>
          if \<not> inFn sc then st
          else if identifierName cal \<noteq> Some (unwrapName opts) then st
          else (case args of
              [arg] \<Rightarrow>
                (case calledIdentifier (peelAwait arg) of
                   None \<Rightarrow>
                     context_report
                       \<lparr>messageId = badUnwrapArg,
                        node = AtExpr (CallExpression i cal tps args),
                        fix_of = None\<rparr> st
                 | Some fnName \<Rightarrow>
                     st\<lparr>wrappedScope :=
                       sc\<lparr>unwrappedFns := Map_set fnName (peelAwait arg) (unwrappedFns sc)\<rparr>
                       # upper\<rparr>)
            | _ \<Rightarrow> st))"
| "onUnwrapCall opts e st = st"

subsection \<open>exitFunction\<close>

text \<open>
  The body of \<^verbatim>\<open>types.forEach\<close>: the accumulator is \<^verbatim>\<open>wrappedFns\<close>, \<^verbatim>\<open>needFix\<close> and
  the diagnostics reported so far by this exit.
\<close>

type_synonym exit_acc = "(string \<times> typeNode) list \<times> bool \<times> report list"

fun checkType :: "typeNode \<Rightarrow> exit_acc \<Rightarrow> exit_acc" where
  "checkType tnode (wfns, needFix, out) =
     (case typeofName tnode of
        None \<Rightarrow>
          (wfns, True, out @ [\<lparr>messageId = badWrapTypeArg, node = AtType tnode, fix_of = None\<rparr>])
      | Some nm \<Rightarrow>
          if Map_has nm wfns
          then (wfns, True,
                out @ [\<lparr>messageId = duplicatedWrapArg, node = AtType tnode, fix_of = None\<rparr>])
          else (Map_set nm tnode wfns, needFix, out))"

text \<open>The first \<^verbatim>\<open>if\<close> of \<^verbatim>\<open>exitFunction\<close>, with \<^verbatim>\<open>needFix\<close> still false before it.\<close>

definition checkTypeParameters :: "WrapScope \<Rightarrow> exit_acc" where
  "checkTypeParameters sc =
     (let missing = (wrappedFns sc, True,
            [\<lparr>messageId = missingTypeParamInWrap, node = AtExpr (callee sc), fix_of = None\<rparr>])
      in case typeParameters sc of
          None \<Rightarrow> missing
        | Some tp \<Rightarrow>
            (case params tp of
               [param] \<Rightarrow> fold checkType (typesOf param) (wrappedFns sc, False, [])
             | _ \<Rightarrow> missing))"

text \<open>The body of \<^verbatim>\<open>unwrappedFns.forEach\<close>.\<close>

fun checkUnwrapped ::
  "(string \<times> typeNode) list \<Rightarrow> string \<times> expr \<Rightarrow> bool \<times> report list \<Rightarrow> bool \<times> report list"
where
  "checkUnwrapped wfns (fnName, nd) (needFix, out) =
     (if \<not> Map_has fnName wfns
      then (True, out @ [\<lparr>messageId = unwrapNotInWrap, node = AtExpr nd, fix_of = None\<rparr>])
      else (needFix, out))"

text \<open>The body of \<^verbatim>\<open>wrappedFns.forEach\<close>.\<close>

fun checkWrapped ::
  "(string \<times> expr) list \<Rightarrow> string \<times> typeNode \<Rightarrow> bool \<times> report list \<Rightarrow> bool \<times> report list"
where
  "checkWrapped ufns (fnName, nd) (needFix, out) =
     (if \<not> Map_has fnName ufns
      then (True, out @ [\<lparr>messageId = wrappedFnNotUnwrapped, node = AtType nd, fix_of = None\<rparr>])
      else (needFix, out))"

text \<open>\<^verbatim>\<open>Array.prototype.join\<close> on strings.\<close>

fun join :: "string \<Rightarrow> string list \<Rightarrow> string" where
  "join sep [] = []"
| "join sep [x] = x"
| "join sep (x # y # ys) = x @ sep @ join sep (y # ys)"

text \<open>The text \<^verbatim>\<open>`<${fixed}>`\<close> built by the fix.\<close>

definition fixText :: "(string \<times> expr) list \<Rightarrow> string" where
  "fixText ufns = ''<'' @ join '' | '' (map (\<lambda>f. ''typeof '' @ f) (Map_keys ufns)) @ ''>''"

text \<open>The fix of \<^verbatim>\<open>badWrap\<close>, \<^verbatim>\<open>fixStrategy\<close> resolved.\<close>

definition synthesizeFix :: "WrapScope \<Rightarrow> fix_edit" where
  "synthesizeFix sc =
     (case typeParameters sc of
        None \<Rightarrow> insertTextAfter (AtExpr (callee sc)) (fixText (unwrappedFns sc))
      | Some tp \<Rightarrow> replaceText (AtTypeArgs tp) (fixText (unwrappedFns sc)))"

text \<open>
  The whole reconciliation of one scope: the scope as \<^verbatim>\<open>exitFunction\<close> leaves it
  (\<^verbatim>\<open>wrappedFns\<close> filled) and the diagnostics it reports, in order.
\<close>

definition reconcile :: "WrapScope \<Rightarrow> WrapScope \<times> report list" where
  "reconcile sc =
     (case checkTypeParameters sc of (wfns, needFix1, out1) \<Rightarrow>
      case fold (checkUnwrapped wfns) (unwrappedFns sc) (needFix1, out1) of (needFix2, out2) \<Rightarrow>
      case fold (checkWrapped (unwrappedFns sc)) wfns (needFix2, out2) of (needFix3, out3) \<Rightarrow>
        (sc\<lparr>wrappedFns := wfns\<rparr>,
         if needFix3
         then out3 @ [\<lparr>messageId = badWrap, node = AtExpr (callee sc),
                       fix_of = Some (synthesizeFix sc)\<rparr>]
         else out3))"

definition exitFunction :: "expr \<Rightarrow> rule_state \<Rightarrow> rule_state" where
  "exitFunction f st =
     (case wrappedScope st of
        [] \<Rightarrow> st
      | sc # upper \<Rightarrow>
          if fn sc \<noteq> f then st
          else \<lparr>wrappedScope = upper, reports = reports st @ snd (reconcile sc)\<rparr>)"

subsection \<open>The visitor\<close>

text \<open>
  The host calls the listeners in the order of its depth-first traversal. An event is one
  such call: \<^verbatim>\<open>CallExpression\<close> (with the node's parent), \<^verbatim>\<open>FunctionExpression\<close> or
  \<^verbatim>\<open>ArrowFunctionExpression\<close> on entry, and the two \<^verbatim>\<open>:exit\<close> listeners.
\<close>

datatype event =
    OnCallExpression expr "expr option"
  | OnFunction expr
  | OnFunctionExit expr

fun visit :: "options \<Rightarrow> event \<Rightarrow> rule_state \<Rightarrow> rule_state" where
  "visit opts (OnCallExpression nd parent) st = onUnwrapCall opts nd (onWrapCall opts nd parent st)"
| "visit opts (OnFunction f) st = enterFunction f st"
| "visit opts (OnFunctionExit f) st = exitFunction f st"

fun run :: "options \<Rightarrow> event list \<Rightarrow> rule_state \<Rightarrow> rule_state" where
  "run opts [] st = st"
| "run opts (e # es) st = run opts es (visit opts e st)"

section \<open>Vocabulary of the properties\<close>

text \<open>The names a list of union members declares, one for each well-formed member, in order.\<close>

fun declaredNames :: "typeNode list \<Rightarrow> string list" where
  "declaredNames [] = []"
| "declaredNames (t # ts) =
     (case typeofName t of None \<Rightarrow> declaredNames ts | Some nm \<Rightarrow> nm # declaredNames ts)"

text \<open>Every member is a \<^verbatim>\<open>typeof\<close> reference to a bare identifier.\<close>

definition wellFormed :: "typeNode list \<Rightarrow> bool" where
  "wellFormed ts = list_all (\<lambda>t. typeofName t \<noteq> None) ts"

text \<open>
  What holds of every scope on the stack between two listener calls: \<^verbatim>\<open>wrappedFns\<close> is
  filled by \<^verbatim>\<open>exitFunction\<close> only, which pops the scope at once, the keys of a
  \<^verbatim>\<open>Map\<close> are distinct, and \<^verbatim>\<open>callee\<close> is the wrap identifier.
\<close>

definition scopeOk :: "options \<Rightarrow> WrapScope \<Rightarrow> bool" where
  "scopeOk opts sc =
     (wrappedFns sc = [] \<and> distinct (Map_keys (unwrappedFns sc))
      \<and> identifierName (callee sc) = Some (wrapName opts))"

definition invariant :: "options \<Rightarrow> rule_state \<Rightarrow> bool" where
  "invariant opts st = list_all (scopeOk opts) (wrappedScope st)"

text \<open>
  An unwrap call with one argument that, one await peeled, is not a call of a bare
  identifier: the calls \<^verbatim>\<open>onUnwrapCall\<close> answers with \<^verbatim>\<open>badUnwrapArg\<close>.
\<close>

fun badUnwrapCall :: "options \<Rightarrow> expr \<Rightarrow> bool" where
  "badUnwrapCall opts (CallExpression i cal tps [arg]) =
     (identifierName cal = Some (unwrapName opts) \<and> calledIdentifier (peelAwait arg) = None)"
| "badUnwrapCall opts e = False"

text \<open>
  What \<^verbatim>\<open>onUnwrapCall\<close> records of a node in an entered body: the callee's name and the
  call (one await peeled), or nothing, and the same for a list of nodes in source order.
\<close>

fun recognizedUnwrap :: "options \<Rightarrow> expr \<Rightarrow> (string \<times> expr) option" where
  "recognizedUnwrap opts (CallExpression i cal tps [arg]) =
     (if identifierName cal = Some (unwrapName opts)
      then (case calledIdentifier (peelAwait arg) of
              None \<Rightarrow> None
            | Some nm \<Rightarrow> Some (nm, peelAwait arg))
      else None)"
| "recognizedUnwrap opts e = None"

fun recognizedUnwraps :: "options \<Rightarrow> expr list \<Rightarrow> (string \<times> expr) list" where
  "recognizedUnwraps opts [] = []"
| "recognizedUnwraps opts (nd # nds) =
     (case recognizedUnwrap opts nd of
        None \<Rightarrow> recognizedUnwraps opts nds
      | Some r \<Rightarrow> r # recognizedUnwraps opts nds)"

text \<open>Names added to a list of keys, each at its first occurrence.\<close>

definition firstSeen :: "string list \<Rightarrow> string list \<Rightarrow> string list" where
  "firstSeen nms ks = fold (\<lambda>nm ks. if nm \<in> set ks then ks else ks @ [nm]) nms ks"

text \<open>
  The names a type-parameter list declares as the fix text \<^verbatim>\<open><typeof n1 | ... | typeof nk>\<close>
  does: no parameter for no name, one \<^verbatim>\<open>typeof\<close> reference for one name, one flat union
  of such references for more.
\<close>

fun fixDenotes :: "string list \<Rightarrow> typeArgs \<Rightarrow> bool" where
  "fixDenotes [] tp = (params tp = [])"
| "fixDenotes [nm] tp = (case params tp of [t] \<Rightarrow> typeofName t = Some nm | _ \<Rightarrow> False)"
| "fixDenotes nms tp =
     (case params tp of
        [t] \<Rightarrow>
          (case t of
             TSUnionType i ts \<Rightarrow> map typeofName ts = map Some nms
           | _ \<Rightarrow> False)
      | _ \<Rightarrow> False)"

text \<open>
  Applying a fix and reading the file again belongs to the host, not to the rule.
  \<open>parseTypeArgs\<close> reads the text of a type-parameter list as the TypeScript grammar does,
  on the fragment the fix texts lie in: angle brackets around nothing or around members
  separated by \<^verbatim>\<open>|\<close>, a member \<^verbatim>\<open>typeof name\<close> being a type query and any other member
  some other type; blanks around members do not count. A text with further angle brackets
  is outside the fragment. \<open>i\<close> is the id of the new list, the ids of its nodes follow it.
\<close>

text \<open>
  What the \<^verbatim>\<open>name\<close> of an \<^verbatim>\<open>Identifier\<close> node always is, as far as the fix text needs it:
  not empty, and without blank, \<^verbatim>\<open>|\<close>, \<^verbatim>\<open><\<close> or \<^verbatim>\<open>>\<close>.
\<close>

definition identifierLike :: "string \<Rightarrow> bool" where
  "identifierLike nm =
     (nm \<noteq> [] \<and> list_all (\<lambda>c. c \<noteq> CHR '' '' \<and> c \<noteq> CHR ''|'' \<and> c \<noteq> CHR ''<'' \<and> c \<noteq> CHR ''>'') nm)"

fun splitOn :: "char \<Rightarrow> string \<Rightarrow> string list" where
  "splitOn c [] = [[]]"
| "splitOn c (x # xs) =
     (if x = c then [] # splitOn c xs
      else (case splitOn c xs of
              [] \<Rightarrow> [[x]]
            | p # ps \<Rightarrow> (x # p) # ps))"

definition trim :: "string \<Rightarrow> string" where
  "trim s = rev (dropWhile (\<lambda>c. c = CHR '' '') (rev (dropWhile (\<lambda>c. c = CHR '' '') s)))"

definition memberName :: "string \<Rightarrow> string option" where
  "memberName piece =
     (let p = trim piece; nm = trim (drop 7 p)
      in if take 7 p = ''typeof '' \<and> identifierLike nm then Some nm else None)"

definition parseMember :: "node_id \<Rightarrow> string \<Rightarrow> typeNode" where
  "parseMember j piece =
     (case memberName piece of
        None \<Rightarrow> TSOtherType j
      | Some nm \<Rightarrow> TSTypeQuery j (NameIdentifier (Suc j) nm))"

definition parseTypeArgs :: "node_id \<Rightarrow> string \<Rightarrow> typeArgs option" where
  "parseTypeArgs i txt =
     (case txt of
        [] \<Rightarrow> None
      | c # rest \<Rightarrow>
          if c \<noteq> CHR ''<'' \<or> rest = [] \<or> last rest \<noteq> CHR ''>''
             \<or> CHR ''<'' \<in> set (butlast rest) \<or> CHR ''>'' \<in> set (butlast rest)
          then None
          else if trim (butlast rest) = [] then Some (TSTypeParameterInstantiation i [])
          else (case splitOn (CHR ''|'') (butlast rest) of
                  [piece] \<Rightarrow> Some (TSTypeParameterInstantiation i [parseMember (Suc i) piece])
                | pieces \<Rightarrow>
                    Some (TSTypeParameterInstantiation i
                      [TSUnionType (Suc i)
                         (map (\<lambda>(k, piece). parseMember (i + 2 + 2 * k) piece)
                            (enumerate 0 pieces))])))"

text \<open>
  An edit applied to a wrap call, and the call read again. \<^verbatim>\<open>insertTextAfter\<close> at the callee
  of a call without type-parameter list, and \<^verbatim>\<open>replaceText\<close> at the list of a call that has
  one, leave their text as the type-parameter list of the call, read by \<open>parseTypeArgs\<close>.
  Text inserted after the callee of a call that has a list stands before that list, and an
  edit anchored elsewhere is none of this call's list: no call is given for them.
\<close>

fun applyFix :: "node_id \<Rightarrow> fix_edit \<Rightarrow> expr \<Rightarrow> expr option" where
  "applyFix i (insertTextAfter a txt) (CallExpression k cal None args) =
     (if a = AtExpr cal
      then map_option (\<lambda>tp. CallExpression k cal (Some tp) args) (parseTypeArgs i txt)
      else None)"
| "applyFix i (replaceText a txt) (CallExpression k cal (Some old) args) =
     (if a = AtTypeArgs old
      then map_option (\<lambda>tp. CallExpression k cal (Some tp) args) (parseTypeArgs i txt)
      else None)"
| "applyFix i e nd = None"


text \<open>
  The events \<open>evs\<close>, seen from the state \<open>st\<close>, all leave more than \<open>n\<close> scopes on the
  stack: the scope at height \<open>n + 1\<close> stays open during all of them.
\<close>

fun insideScope :: "options \<Rightarrow> nat \<Rightarrow> event list \<Rightarrow> rule_state \<Rightarrow> bool" where
  "insideScope opts n [] st = True"
| "insideScope opts n (e # es) st =
     (n < length (wrappedScope (visit opts e st)) \<and> insideScope opts n es (visit opts e st))"

text \<open>
  The wrap-open predicate in one piece: the scope that \<^verbatim>\<open>onWrapCall\<close> pushes for a node and
  its parent, if it pushes one.
\<close>

fun wrapOpen :: "options \<Rightarrow> expr \<Rightarrow> expr option \<Rightarrow> WrapScope option" where
  "wrapOpen opts (CallExpression i cal tps args) (Some (CallExpression p pcal ptps [f])) =
     (if identifierName cal = Some (wrapName opts) \<and> isFunctionNode f \<and> async f
      then Some \<lparr>fn = f, inFn = False, callee = cal, typeParameters = tps,
                 unwrappedFns = [], wrappedFns = []\<rparr>
      else None)"
| "wrapOpen opts nd parent = None"

text \<open>
  The stack with the type-parameter list of the scope at height \<open>n\<close> (the scope with \<open>n\<close>
  scopes below it) replaced.
\<close>

fun retypeAt :: "nat \<Rightarrow> typeArgs option \<Rightarrow> WrapScope list \<Rightarrow> WrapScope list" where
  "retypeAt n t [] = []"
| "retypeAt n t (sc # below) =
     (if length below = n then sc\<lparr>typeParameters := t\<rparr> # below else sc # retypeAt n t below)"

section \<open>A sample program\<close>

text \<open>
  The events of \<^verbatim>\<open>wrap<...>()(async () => { unwrap(await f()); unwrap(h()); unwrap(await f()) })\<close>
  under the default options, with the type-parameter list left open.
\<close>

definition exOptions :: options where
  "exOptions = \<lparr>wrapName = ''wrap'', unwrapName = ''unwrap''\<rparr>"

definition exFn :: expr where
  "exFn = ArrowFunctionExpression 4 True"

definition exWrapCall :: "typeArgs option \<Rightarrow> expr" where
  "exWrapCall tps = CallExpression 2 (Identifier 3 ''wrap'') tps []"

definition exConstruct :: "typeArgs option \<Rightarrow> expr" where
  "exConstruct tps = CallExpression 1 (exWrapCall tps) None [exFn]"

definition exCall :: "node_id \<Rightarrow> string \<Rightarrow> expr" where
  "exCall i nm = CallExpression i (Identifier (Suc i) nm) None []"

definition exUnwrap :: "node_id \<Rightarrow> expr \<Rightarrow> expr" where
  "exUnwrap i arg = CallExpression i (Identifier (Suc i) ''unwrap'') None [arg]"

definition exTypeof :: "node_id \<Rightarrow> string \<Rightarrow> typeNode" where
  "exTypeof i nm = TSTypeQuery i (NameIdentifier (Suc i) nm)"

definition exOpen :: "typeArgs option \<Rightarrow> event list" where
  "exOpen tps =
     [OnCallExpression (exConstruct tps) (Some (OtherNode 0)),
      OnCallExpression (exWrapCall tps) (Some (exConstruct tps)),
      OnFunction exFn]"

definition exBody :: "event list" where
  "exBody =
     [OnCallExpression (exUnwrap 10 (AwaitExpression 12 (exCall 13 ''f''))) (Some (OtherNode 5)),
      OnCallExpression (exUnwrap 20 (exCall 23 ''h'')) (Some (OtherNode 6)),
      OnCallExpression (exUnwrap 30 (AwaitExpression 32 (exCall 33 ''f''))) (Some (OtherNode 7))]"

definition exUnion :: "typeNode list \<Rightarrow> typeArgs" where
  "exUnion ts = TSTypeParameterInstantiation 40 [TSUnionType 41 ts]"

text \<open>\<^verbatim>\<open>unwrap(5)\<close>: the argument is a literal.\<close>

definition exLiteralUnwrap :: expr where
  "exLiteralUnwrap = exUnwrap 50 (OtherNode 52)"

text \<open>\<^verbatim>\<open>unwrap(await g())\<close> and \<^verbatim>\<open>unwrap(await await g())\<close>.\<close>

definition exAwaitUnwrap :: expr where
  "exAwaitUnwrap = exUnwrap 80 (AwaitExpression 82 (exCall 83 ''g''))"

definition exDoubleAwaitUnwrap :: expr where
  "exDoubleAwaitUnwrap = exUnwrap 90 (AwaitExpression 92 (AwaitExpression 93 (exCall 94 ''g'')))"

text \<open>The three unwrap calls of the body, as nodes.\<close>

definition exCalls :: "expr list" where
  "exCalls = [exUnwrap 10 (AwaitExpression 12 (exCall 13 ''f'')),
              exUnwrap 20 (exCall 23 ''h''),
              exUnwrap 30 (AwaitExpression 32 (exCall 33 ''f''))]"

text \<open>
  A second construct \<^verbatim>\<open>wrap()(async () => { unwrap(g()) })\<close>, met inside the body of the
  first one after its three unwrap calls.
\<close>

definition exInnerFn :: expr where
  "exInnerFn = ArrowFunctionExpression 64 True"

definition exInnerWrapCall :: expr where
  "exInnerWrapCall = CallExpression 62 (Identifier 63 ''wrap'') None []"

definition exInnerConstruct :: expr where
  "exInnerConstruct = CallExpression 61 exInnerWrapCall None [exInnerFn]"

definition exInnerOpen :: "event list" where
  "exInnerOpen =
     [OnCallExpression exInnerConstruct (Some (OtherNode 60)),
      OnCallExpression exInnerWrapCall (Some exInnerConstruct)]"

definition exInnerBody :: "event list" where
  "exInnerBody =
     [OnFunction exInnerFn,
      OnCallExpression (exUnwrap 70 (exCall 73 ''g'')) (Some (OtherNode 65))]"

definition exOuterEvents :: "event list" where
  "exOuterEvents =
     exOpen (Some (exUnion [exTypeof 42 ''f'', exTypeof 44 ''h''])) @ exBody @ exInnerOpen"

section \<open>The Map operations\<close>

lemma Map_has_iff: "Map_has k m \<longleftrightarrow> k \<in> set (Map_keys m)"
  by (induction m) (auto simp: Map_keys_def)

lemma Map_set_absent: "\<not> Map_has k m \<Longrightarrow> Map_set k v m = m @ [(k, v)]"
  by (induction m) auto

lemma Map_keys_Map_set:
  "Map_keys (Map_set k v m) = (if Map_has k m then Map_keys m else Map_keys m @ [k])"
  by (induction m) (auto simp: Map_keys_def)

lemma Map_get_Map_set: "Map_get k' (Map_set k v m) = (if k' = k then Some v else Map_get k' m)"
  by (induction m) auto

lemma distinct_Map_set: "distinct (Map_keys m) \<Longrightarrow> distinct (Map_keys (Map_set k v m))"
  by (simp add: Map_keys_Map_set Map_has_iff)

lemma fold_checkUnwrapped:
  "fold (checkUnwrapped w) u (nf, out) =
     (nf \<or> filter (\<lambda>(k, nd). \<not> Map_has k w) u \<noteq> [],
      out @ map (\<lambda>(k, nd). \<lparr>messageId = unwrapNotInWrap, node = AtExpr nd, fix_of = None\<rparr>)
                (filter (\<lambda>(k, nd). \<not> Map_has k w) u))"
  by (induction u arbitrary: nf out) auto

lemma fold_checkWrapped:
  "fold (checkWrapped u) w (nf, out) =
     (nf \<or> filter (\<lambda>(k, nd). \<not> Map_has k u) w \<noteq> [],
      out @ map (\<lambda>(k, nd). \<lparr>messageId = wrappedFnNotUnwrapped, node = AtType nd, fix_of = None\<rparr>)
                (filter (\<lambda>(k, nd). \<not> Map_has k u) w))"
  by (induction w arbitrary: nf out) auto

lemma fold_checkType_clean:
  "wellFormed ts \<Longrightarrow> distinct (declaredNames ts) \<Longrightarrow>
   set (declaredNames ts) \<inter> set (Map_keys w) = {} \<Longrightarrow>
   fold checkType ts (w, nf, out) = (w @ zip (declaredNames ts) ts, nf, out)"
proof (induction ts arbitrary: w)
  case Nil
  then show ?case by simp
next
  case (Cons t ts)
  from Cons.prems(1) obtain nm where nm: "typeofName t = Some nm"
    by (auto simp: wellFormed_def)
  from Cons.prems nm have absent: "\<not> Map_has nm w"
    by (auto simp: Map_has_iff)
  have step: "checkType t (w, nf, out) = (w @ [(nm, t)], nf, out)"
    using nm absent by (simp add: Map_set_absent)
  have "fold checkType ts (w @ [(nm, t)], nf, out)
        = ((w @ [(nm, t)]) @ zip (declaredNames ts) ts, nf, out)"
    using Cons.prems nm by (intro Cons.IH) (auto simp: wellFormed_def Map_keys_def)
  then show ?case using step nm by simp
qed

lemma length_declaredNames: "wellFormed ts \<Longrightarrow> length (declaredNames ts) = length ts"
  by (induction ts) (auto simp: wellFormed_def)

lemma reconcile_reports:
  "checkTypeParameters sc = (w, nf, out) \<Longrightarrow>
   snd (reconcile sc) =
     (let us = filter (\<lambda>(k, nd). \<not> Map_has k w) (unwrappedFns sc);
          ws = filter (\<lambda>(k, nd). \<not> Map_has k (unwrappedFns sc)) w
      in out
         @ map (\<lambda>(k, nd). \<lparr>messageId = unwrapNotInWrap, node = AtExpr nd, fix_of = None\<rparr>) us
         @ map (\<lambda>(k, nd). \<lparr>messageId = wrappedFnNotUnwrapped, node = AtType nd, fix_of = None\<rparr>) ws
         @ (if nf \<or> us \<noteq> [] \<or> ws \<noteq> []
            then [\<lparr>messageId = badWrap, node = AtExpr (callee sc),
                   fix_of = Some (synthesizeFix sc)\<rparr>]
            else []))"
  by (simp add: reconcile_def fold_checkUnwrapped fold_checkWrapped Let_def)

lemma reconcile_scope:
  "checkTypeParameters sc = (w, nf, out) \<Longrightarrow> fst (reconcile sc) = sc\<lparr>wrappedFns := w\<rparr>"
  by (simp add: reconcile_def fold_checkUnwrapped fold_checkWrapped)

section \<open>Reachable states\<close>

lemma invariant_initial: "invariant opts initial"
  by (simp add: invariant_def initial_def)

lemma invariant_onWrapCall: "invariant opts st \<Longrightarrow> invariant opts (onWrapCall opts nd parent st)"
  by (cases "(opts, nd, parent, st)" rule: onWrapCall.cases)
     (auto simp: invariant_def scopeOk_def Map_keys_def split: option.splits expr.splits list.splits)

lemma invariant_onUnwrapCall: "invariant opts st \<Longrightarrow> invariant opts (onUnwrapCall opts nd st)"
  by (cases "(opts, nd, st)" rule: onUnwrapCall.cases)
     (auto simp: invariant_def scopeOk_def context_report_def distinct_Map_set
           split: option.splits list.splits)

lemma invariant_enterFunction: "invariant opts st \<Longrightarrow> invariant opts (enterFunction f st)"
  by (auto simp: invariant_def scopeOk_def enterFunction_def split: list.splits)

lemma invariant_exitFunction: "invariant opts st \<Longrightarrow> invariant opts (exitFunction f st)"
  by (auto simp: invariant_def exitFunction_def split: list.splits)

lemma invariant_visit: "invariant opts st \<Longrightarrow> invariant opts (visit opts e st)"
  by (cases e)
     (simp_all add: invariant_onWrapCall invariant_onUnwrapCall invariant_enterFunction
        invariant_exitFunction)

lemma invariant_run: "invariant opts st \<Longrightarrow> invariant opts (run opts evs st)"
  by (induction evs arbitrary: st) (simp_all add: invariant_visit)

lemma reachable_scopeOk:
  "wrappedScope (run opts evs initial) = sc # upper \<Longrightarrow> scopeOk opts sc"
  using invariant_run [OF invariant_initial, of opts evs] by (simp add: invariant_def)

lemma checkTypeParameters_clean:
  assumes "wrappedFns sc = []" "typeParameters sc = Some tp" "params tp = [param]"
    and "wellFormed (typesOf param)" "distinct (declaredNames (typesOf param))"
  shows "checkTypeParameters sc =
           (zip (declaredNames (typesOf param)) (typesOf param), False, [])"
  using assms fold_checkType_clean [of "typesOf param" "[]" False "[]"]
  by (simp add: checkTypeParameters_def Map_keys_def)

lemma Map_keys_zip: "length ns = length ts \<Longrightarrow> Map_keys (zip ns ts) = ns"
  by (simp add: Map_keys_def)

lemma filter_absent_Nil:
  "set (Map_keys u) \<subseteq> set (Map_keys w) \<Longrightarrow> filter (\<lambda>(k, nd). \<not> Map_has k w) u = []"
proof -
  assume sub: "set (Map_keys u) \<subseteq> set (Map_keys w)"
  have "Map_has k w" if "(k, nd) \<in> set u" for k nd
  proof -
    from that have "k \<in> set (Map_keys u)" by (force simp: Map_keys_def)
    with sub show ?thesis by (auto simp: Map_has_iff)
  qed
  then show ?thesis by (auto simp: filter_empty_conv)
qed

lemmas ex_defs = exOptions_def exFn_def exWrapCall_def exConstruct_def exCall_def exUnwrap_def
  exTypeof_def exOpen_def exBody_def exUnion_def exLiteralUnwrap_def exAwaitUnwrap_def
  exDoubleAwaitUnwrap_def initial_def enterFunction_def

lemmas ex_inner_defs = exInnerFn_def exInnerWrapCall_def exInnerConstruct_def exInnerOpen_def
  exInnerBody_def

lemma filter_messageId_unwrapNotInWrap:
  "mid \<noteq> unwrapNotInWrap \<Longrightarrow>
   filter (\<lambda>r. messageId r = mid)
     (map (\<lambda>(k, nd). \<lparr>messageId = unwrapNotInWrap, node = AtExpr nd, fix_of = None\<rparr>) m) = []"
  by (induction m) auto

lemma checkTypeParameters_missing:
  "(case typeParameters sc of None \<Rightarrow> True | Some tp \<Rightarrow> length (params tp) \<noteq> 1) \<Longrightarrow>
   checkTypeParameters sc =
     (wrappedFns sc, True,
      [\<lparr>messageId = missingTypeParamInWrap, node = AtExpr (callee sc), fix_of = None\<rparr>])"
  by (auto simp: checkTypeParameters_def Let_def split: option.splits list.splits)

lemma reconcile_clean:
  assumes "wrappedFns sc = []"
    and "typeParameters sc = Some tp" and "params tp = [param]"
    and "wellFormed (typesOf param)"
    and "distinct (declaredNames (typesOf param))"
    and "set (declaredNames (typesOf param)) = set (Map_keys (unwrappedFns sc))"
  shows "snd (reconcile sc) = []"
proof -
  let ?ts = "typesOf param"
  let ?w = "zip (declaredNames ?ts) ?ts"
  have ctp: "checkTypeParameters sc = (?w, False, [])"
    using assms(1-5) by (intro checkTypeParameters_clean)
  have keys: "Map_keys ?w = declaredNames ?ts"
    using assms(4) by (simp add: Map_keys_zip length_declaredNames)
  have u: "filter (\<lambda>(k, nd). \<not> Map_has k ?w) (unwrappedFns sc) = []"
    using assms(6) keys by (intro filter_absent_Nil) simp
  have w: "filter (\<lambda>(k, nd). \<not> Map_has k (unwrappedFns sc)) ?w = []"
    using assms(6) keys by (intro filter_absent_Nil) simp
  show ?thesis
    using reconcile_reports [OF ctp] u w by simp
qed

lemma declaredNames_mem:
  "t \<in> set ts \<Longrightarrow> typeofName t = Some nm \<Longrightarrow> nm \<in> set (declaredNames ts)"
  by (induction ts) (auto split: option.splits)

lemma Map_get_zip_declared:
  "wellFormed ts \<Longrightarrow> distinct (declaredNames ts) \<Longrightarrow> t \<in> set ts \<Longrightarrow> typeofName t = Some nm
   \<Longrightarrow> Map_get nm (zip (declaredNames ts) ts) = Some t"
proof (induction ts)
  case Nil
  then show ?case by simp
next
  case (Cons t' ts)
  from Cons.prems(1) obtain nm' where nm': "typeofName t' = Some nm'"
    by (auto simp: wellFormed_def)
  show ?case
  proof (cases "t = t'")
    case True
    with nm' Cons.prems(4) show ?thesis by simp
  next
    case False
    with Cons.prems(3) have mem: "t \<in> set ts" by simp
    then have "nm \<in> set (declaredNames ts)"
      using Cons.prems(4) by (rule declaredNames_mem)
    with Cons.prems(2) nm' have "nm' \<noteq> nm" by auto
    moreover have "Map_get nm (zip (declaredNames ts) ts) = Some t"
      using Cons.prems nm' mem by (intro Cons.IH) (auto simp: wellFormed_def)
    ultimately show ?thesis using nm' by simp
  qed
qed

lemma filter_other_keys:
  "\<not> Map_has k m \<Longrightarrow> filter (\<lambda>(k', v). k' = k) m = []"
  by (induction m) auto

lemma filter_single_key:
  "distinct (Map_keys m) \<Longrightarrow> Map_get k m = Some v \<Longrightarrow> filter (\<lambda>(k', v'). k' = k) m = [(k, v)]"
proof (induction m)
  case Nil
  then show ?case by simp
next
  case (Cons p m)
  obtain k' v' where p: "p = (k', v')" by (cases p)
  show ?case
  proof (cases "k' = k")
    case True
    with Cons.prems p have "\<not> Map_has k m" "v' = v"
      by (auto simp: Map_has_iff Map_keys_def)
    then show ?thesis using p True by (simp add: filter_other_keys)
  next
    case False
    with Cons p show ?thesis by (simp add: Map_keys_def)
  qed
qed

lemma two_element_list:
  assumes "distinct xs" "set xs = {a, b}" "a \<noteq> b"
  shows "xs = [a, b] \<or> xs = [b, a]"
proof -
  have "length xs = 2"
    using assms distinct_card [of xs] by simp
  then obtain x y where xs: "xs = [x, y]"
    by (cases xs; cases "tl xs") auto
  with assms(2) have "{x, y} = {a, b}" by simp
  then show ?thesis using xs by (auto simp: doubleton_eq_iff)
qed

lemma onUnwrapCall_bad:
  "wrappedScope st = sc # upper \<Longrightarrow> inFn sc \<Longrightarrow> badUnwrapCall opts nd \<Longrightarrow>
   onUnwrapCall opts nd st =
     st\<lparr>reports := reports st @ [\<lparr>messageId = badUnwrapArg, node = AtExpr nd, fix_of = None\<rparr>]\<rparr>"
  by (cases "(opts, nd)" rule: badUnwrapCall.cases) (auto simp: context_report_def)

lemma fold_onUnwrapCall_bad:
  "wrappedScope st = sc # upper \<Longrightarrow> inFn sc \<Longrightarrow> list_all (badUnwrapCall opts) bads \<Longrightarrow>
   fold (onUnwrapCall opts) bads st =
     st\<lparr>reports := reports st
          @ map (\<lambda>nd. \<lparr>messageId = badUnwrapArg, node = AtExpr nd, fix_of = None\<rparr>) bads\<rparr>"
proof (induction bads arbitrary: st)
  case Nil
  then show ?case by simp
next
  case (Cons nd bads)
  let ?st = "st\<lparr>reports := reports st
                @ [\<lparr>messageId = badUnwrapArg, node = AtExpr nd, fix_of = None\<rparr>]\<rparr>"
  have step: "onUnwrapCall opts nd st = ?st"
    using Cons.prems by (intro onUnwrapCall_bad) simp_all
  have "fold (onUnwrapCall opts) bads ?st =
      ?st\<lparr>reports := reports ?st
          @ map (\<lambda>nd. \<lparr>messageId = badUnwrapArg, node = AtExpr nd, fix_of = None\<rparr>) bads\<rparr>"
    using Cons.prems by (intro Cons.IH) simp_all
  then show ?case using step by simp
qed

section \<open>What a run records\<close>

lemma onUnwrapCall_entered:
  "wrappedScope st = sc # upper \<Longrightarrow> inFn sc \<Longrightarrow>
   wrappedScope (onUnwrapCall opts nd st) =
     sc\<lparr>unwrappedFns :=
          (case recognizedUnwrap opts nd of
             None \<Rightarrow> unwrappedFns sc
           | Some (nm, c) \<Rightarrow> Map_set nm c (unwrappedFns sc))\<rparr> # upper"
  by (cases "(opts, nd)" rule: recognizedUnwrap.cases)
     (auto simp: context_report_def split: option.splits)

lemma fold_onUnwrapCall_entered:
  "wrappedScope st = sc # upper \<Longrightarrow> inFn sc \<Longrightarrow>
   wrappedScope (fold (onUnwrapCall opts) calls st) =
     sc\<lparr>unwrappedFns :=
          fold (\<lambda>(nm, c). Map_set nm c) (recognizedUnwraps opts calls) (unwrappedFns sc)\<rparr> # upper"
proof (induction calls arbitrary: st sc)
  case Nil
  then show ?case by simp
next
  case (Cons nd calls)
  let ?sc = "sc\<lparr>unwrappedFns :=
          (case recognizedUnwrap opts nd of
             None \<Rightarrow> unwrappedFns sc
           | Some (nm, c) \<Rightarrow> Map_set nm c (unwrappedFns sc))\<rparr>"
  have step: "wrappedScope (onUnwrapCall opts nd st) = ?sc # upper"
    using Cons.prems by (rule onUnwrapCall_entered)
  have "inFn ?sc" using Cons.prems(2) by simp
  from Cons.IH [OF step this] show ?case
    by (auto split: option.splits)
qed

lemma Map_get_fold_Map_set:
  "Map_get nm (fold (\<lambda>(k, c). Map_set k c) rs m) =
     (case filter (\<lambda>(k, c). k = nm) rs of
        [] \<Rightarrow> Map_get nm m
      | r # rs' \<Rightarrow> Some (snd (last (r # rs'))))"
proof (induction rs arbitrary: m)
  case Nil
  then show ?case by simp
next
  case (Cons r rs)
  obtain k c where r: "r = (k, c)" by (cases r)
  show ?case
    using Cons.IH [of "Map_set k c m"] r
    by (auto simp: Map_get_Map_set split: list.splits)
qed

lemma Map_keys_fold_Map_set:
  "Map_keys (fold (\<lambda>(k, c). Map_set k c) rs m) = firstSeen (map fst rs) (Map_keys m)"
proof (induction rs arbitrary: m)
  case Nil
  then show ?case by (simp add: firstSeen_def)
next
  case (Cons r rs)
  obtain k c where r: "r = (k, c)" by (cases r)
  show ?case
    using Cons.IH [of "Map_set k c m"] r
    by (simp add: firstSeen_def Map_keys_Map_set Map_has_iff)
qed

section \<open>The fix read back\<close>

lemma typeofName_typesOf: "typeofName t = Some nm \<Longrightarrow> typesOf t = [t]"
  by (cases t) auto

lemma map_typeofName_Some:
  "map typeofName ts = map Some nms \<Longrightarrow> wellFormed ts \<and> declaredNames ts = nms"
  by (induction ts arbitrary: nms) (auto simp: wellFormed_def)

lemma fixDenotes_clean:
  assumes "fixDenotes nms tp" and "nms \<noteq> []"
  shows "\<exists>param. params tp = [param] \<and> wellFormed (typesOf param)
           \<and> declaredNames (typesOf param) = nms"
proof (cases nms)
  case Nil
  with assms(2) show ?thesis by simp
next
  case (Cons nm rest)
  show ?thesis
  proof (cases rest)
    case Nil
    with Cons assms(1) obtain t where "params tp = [t]" "typeofName t = Some nm"
      by (auto split: list.splits)
    then show ?thesis
      using Cons Nil by (simp add: typeofName_typesOf wellFormed_def)
  next
    case (Cons nm' rest')
    with \<open>nms = nm # rest\<close> assms(1) have
      "\<exists>i ts. params tp = [TSUnionType i ts] \<and> map typeofName ts = map Some nms"
      by (simp split: list.splits typeNode.splits)
    then obtain i ts
      where "params tp = [TSUnionType i ts]" "map typeofName ts = map Some nms"
      by blast
    then show ?thesis
      using map_typeofName_Some [of ts nms] by simp
  qed
qed

section \<open>The stack below the active scope\<close>

lemma onWrapCall_stack:
  "wrappedScope (onWrapCall opts nd parent st) = wrappedScope st
   \<or> (\<exists>new. wrappedScope (onWrapCall opts nd parent st) = new # wrappedScope st)"
  by (cases "(opts, nd, parent, st)" rule: onWrapCall.cases)
     (auto split: option.splits expr.splits list.splits)

lemma onUnwrapCall_stack:
  "wrappedScope st = cur # below \<Longrightarrow>
   \<exists>cur'. wrappedScope (onUnwrapCall opts nd st) = cur' # below"
  by (cases "(opts, nd, st)" rule: onUnwrapCall.cases)
     (auto simp: context_report_def split: option.splits list.splits)

lemma visit_frame:
  assumes "wrappedScope st = cur # below"
  shows "\<exists>up. wrappedScope (visit opts e st) = up @ below"
proof (cases e)
  case (OnCallExpression nd parent)
  let ?st = "onWrapCall opts nd parent st"
  from onWrapCall_stack [of opts nd parent st] assms
  consider "wrappedScope ?st = cur # below" | new where "wrappedScope ?st = new # cur # below"
    by auto
  then show ?thesis
  proof cases
    case 1
    from onUnwrapCall_stack [OF this, of opts nd] obtain cur'
      where "wrappedScope (onUnwrapCall opts nd ?st) = cur' # below" by blast
    then have "wrappedScope (visit opts e st) = [cur'] @ below"
      using OnCallExpression by simp
    then show ?thesis by blast
  next
    case 2
    from onUnwrapCall_stack [OF this, of opts nd] obtain cur'
      where "wrappedScope (onUnwrapCall opts nd ?st) = cur' # cur # below" by blast
    then have "wrappedScope (visit opts e st) = [cur', cur] @ below"
      using OnCallExpression by simp
    then show ?thesis by blast
  qed
next
  case (OnFunction f)
  have "wrappedScope (visit opts e st) = [cur] @ below
      \<or> wrappedScope (visit opts e st) = [cur\<lparr>inFn := True\<rparr>] @ below"
    using assms OnFunction by (simp add: enterFunction_def)
  then show ?thesis by blast
next
  case (OnFunctionExit f)
  have "wrappedScope (visit opts e st) = [cur] @ below
      \<or> wrappedScope (visit opts e st) = [] @ below"
    using assms OnFunctionExit by (simp add: exitFunction_def)
  then show ?thesis by blast
qed

lemma visit_above:
  assumes "wrappedScope st = up @ lower" and "up \<noteq> []"
  shows "\<exists>up'. wrappedScope (visit opts e st) = up' @ lower"
proof -
  from assms obtain cur rest where up: "up = cur # rest" by (cases up) auto
  with assms(1) have "wrappedScope st = cur # (rest @ lower)" by simp
  from visit_frame [OF this, of opts e] obtain up'
    where "wrappedScope (visit opts e st) = (up' @ rest) @ lower" by auto
  then show ?thesis by blast
qed

lemma run_above:
  "wrappedScope st = up @ lower \<Longrightarrow> up \<noteq> [] \<Longrightarrow> insideScope opts (length lower) evs st \<Longrightarrow>
   \<exists>up'. up' \<noteq> [] \<and> wrappedScope (run opts evs st) = up' @ lower"
proof (induction evs arbitrary: st up)
  case Nil
  then show ?case by auto
next
  case (Cons e evs)
  from visit_above [OF Cons.prems(1,2), of opts e] obtain up'
    where up': "wrappedScope (visit opts e st) = up' @ lower" by blast
  from Cons.prems(3) have "length lower < length (wrappedScope (visit opts e st))"
    and inside: "insideScope opts (length lower) evs (visit opts e st)"
    by simp_all
  with up' have "up' \<noteq> []" by auto
  from Cons.IH [OF up' this inside] show ?case by simp
qed

lemma insideScope_take:
  "insideScope opts n evs st \<Longrightarrow> insideScope opts n (take k evs) st"
proof (induction evs arbitrary: k st)
  case Nil
  then show ?case by simp
next
  case (Cons e evs)
  then show ?case by (cases k) auto
qed

lemma onWrapCall_reports_split:
  "onWrapCall opts nd parent st =
     \<lparr>wrappedScope = wrappedScope (onWrapCall opts nd parent (st\<lparr>reports := []\<rparr>)),
      reports = reports st @ reports (onWrapCall opts nd parent (st\<lparr>reports := []\<rparr>))\<rparr>"
  by (cases "(opts, nd, parent, st)" rule: onWrapCall.cases)
     (auto split: option.splits expr.splits list.splits)

lemma onUnwrapCall_reports_split:
  "onUnwrapCall opts nd st =
     \<lparr>wrappedScope = wrappedScope (onUnwrapCall opts nd (st\<lparr>reports := []\<rparr>)),
      reports = reports st @ reports (onUnwrapCall opts nd (st\<lparr>reports := []\<rparr>))\<rparr>"
  by (cases "(opts, nd, st)" rule: onUnwrapCall.cases)
     (auto simp: context_report_def split: option.splits list.splits)

lemma visit_reports_split:
  "visit opts e st =
     \<lparr>wrappedScope = wrappedScope (visit opts e (st\<lparr>reports := []\<rparr>)),
      reports = reports st @ reports (visit opts e (st\<lparr>reports := []\<rparr>))\<rparr>"
proof (cases e)
  case (OnCallExpression nd parent)
  let ?a = "onWrapCall opts nd parent st"
  let ?b = "onWrapCall opts nd parent (st\<lparr>reports := []\<rparr>)"
  have a: "?a = \<lparr>wrappedScope = wrappedScope ?b, reports = reports st @ reports ?b\<rparr>"
    by (rule onWrapCall_reports_split)
  have b: "reports ?b = []"
    using onWrapCall_reports_split [of opts nd parent "st\<lparr>reports := []\<rparr>"]
    by (cases "(opts, nd, parent, st)" rule: onWrapCall.cases)
       (auto split: option.splits expr.splits list.splits)
  have eq: "?a\<lparr>reports := []\<rparr> = ?b" using a b by (cases ?b) simp
  have "onUnwrapCall opts nd ?a =
     \<lparr>wrappedScope = wrappedScope (onUnwrapCall opts nd ?b),
      reports = reports ?a @ reports (onUnwrapCall opts nd ?b)\<rparr>"
    using onUnwrapCall_reports_split [of opts nd ?a] eq by simp
  moreover have "reports ?a = reports st" using a b by simp
  ultimately show ?thesis using OnCallExpression by simp
next
  case (OnFunction f)
  then show ?thesis by (auto simp: enterFunction_def split: list.splits)
next
  case (OnFunctionExit f)
  then show ?thesis by (auto simp: exitFunction_def split: list.splits)
qed

lemma run_reports_split:
  "run opts evs st =
     \<lparr>wrappedScope = wrappedScope (run opts evs \<lparr>wrappedScope = wrappedScope st, reports = []\<rparr>),
      reports = reports st
        @ reports (run opts evs \<lparr>wrappedScope = wrappedScope st, reports = []\<rparr>)\<rparr>"
proof (induction evs arbitrary: st)
  case Nil
  then show ?case by simp
next
  case (Cons e evs)
  let ?empty = "\<lparr>wrappedScope = wrappedScope st, reports = []\<rparr>"
  let ?full = "visit opts e st"
  let ?fresh = "visit opts e ?empty"
  have st0: "st\<lparr>reports := []\<rparr> = ?empty" by simp
  have "?full = \<lparr>wrappedScope = wrappedScope (visit opts e (st\<lparr>reports := []\<rparr>)),
              reports = reports st @ reports (visit opts e (st\<lparr>reports := []\<rparr>))\<rparr>"
    by (rule visit_reports_split)
  then have v: "?full = \<lparr>wrappedScope = wrappedScope ?fresh, reports = reports st @ reports ?fresh\<rparr>"
    unfolding st0 .
  then have same: "wrappedScope ?full = wrappedScope ?fresh" by simp
  let ?z = "run opts evs \<lparr>wrappedScope = wrappedScope ?fresh, reports = []\<rparr>"
  have "run opts evs ?full =
      \<lparr>wrappedScope = wrappedScope ?z, reports = reports ?full @ reports ?z\<rparr>"
    using Cons.IH [of ?full] same by simp
  moreover have "run opts evs ?fresh =
      \<lparr>wrappedScope = wrappedScope ?z, reports = reports ?fresh @ reports ?z\<rparr>"
    using Cons.IH [of ?fresh] by simp
  moreover have "reports ?full = reports st @ reports ?fresh" using v by simp
  ultimately show ?case by simp
qed

section \<open>The same events under another type-parameter list\<close>

lemma onWrapCall_wrapOpen:
  "onWrapCall opts nd parent st =
     (case wrapOpen opts nd parent of
        None \<Rightarrow> st
      | Some new \<Rightarrow> st\<lparr>wrappedScope := new # wrappedScope st\<rparr>)"
  by (cases "(opts, nd, parent)" rule: wrapOpen.cases; cases nd; simp)

lemma wrapOpen_fresh:
  "wrapOpen opts nd parent = Some new \<Longrightarrow>
   \<not> inFn new \<and> unwrappedFns new = [] \<and> wrappedFns new = []"
  by (cases "(opts, nd, parent)" rule: wrapOpen.cases) (auto split: if_splits)

lemma onUnwrapCall_not_entered:
  "wrappedScope st = sc # upper \<Longrightarrow> \<not> inFn sc \<Longrightarrow> onUnwrapCall opts nd st = st"
  by (cases "(opts, nd, st)" rule: onUnwrapCall.cases) auto

lemma onUnwrapCall_retype:
  assumes "wrappedScope st = sc # lower"
  shows "\<exists>sc'. wrappedScope (onUnwrapCall opts nd st) = sc' # lower
         \<and> onUnwrapCall opts nd (st\<lparr>wrappedScope := sc\<lparr>typeParameters := t\<rparr> # lower\<rparr>)
             = \<lparr>wrappedScope = sc'\<lparr>typeParameters := t\<rparr> # lower,
                reports = reports (onUnwrapCall opts nd st)\<rparr>"
  using assms
  by (cases "(opts, nd, st)" rule: onUnwrapCall.cases)
     (auto simp: context_report_def split: option.splits list.splits)

lemma wrapOpen_callee:
  "wrapOpen opts (CallExpression i cal tps args) parent = Some new \<Longrightarrow>
   identifierName cal = Some (wrapName opts)"
  by (cases "(opts, CallExpression i cal tps args, parent)" rule: wrapOpen.cases)
     (auto split: if_splits)

lemma retypeAt_append:
  "retypeAt (length lower) t (up @ sc # lower) = up @ sc\<lparr>typeParameters := t\<rparr> # lower"
  by (induction up) auto

lemma onUnwrapCall_top:
  "\<exists>cur' Y. \<forall>below r.
     onUnwrapCall opts nd \<lparr>wrappedScope = cur # below, reports = r\<rparr>
       = \<lparr>wrappedScope = cur' # below, reports = r @ Y\<rparr>"
proof (cases nd)
  case (CallExpression i cal tps args)
  show ?thesis
  proof (cases "inFn cur \<and> identifierName cal = Some (unwrapName opts)
                 \<and> (\<exists>arg. args = [arg])")
    case False
    then have "\<forall>below r. onUnwrapCall opts nd \<lparr>wrappedScope = cur # below, reports = r\<rparr>
       = \<lparr>wrappedScope = cur # below, reports = r @ []\<rparr>"
      using CallExpression by (auto split: list.splits)
    then show ?thesis by blast
  next
    case True
    then obtain arg where arg: "args = [arg]" by blast
    show ?thesis
    proof (cases "calledIdentifier (peelAwait arg)")
      case None
      then have "\<forall>below r. onUnwrapCall opts nd \<lparr>wrappedScope = cur # below, reports = r\<rparr>
         = \<lparr>wrappedScope = cur # below,
            reports = r @ [\<lparr>messageId = badUnwrapArg, node = AtExpr nd, fix_of = None\<rparr>]\<rparr>"
        using CallExpression True arg by (simp add: context_report_def)
      then show ?thesis by blast
    next
      case (Some nm)
      then have "\<forall>below r. onUnwrapCall opts nd \<lparr>wrappedScope = cur # below, reports = r\<rparr>
         = \<lparr>wrappedScope =
              cur\<lparr>unwrappedFns := Map_set nm (peelAwait arg) (unwrappedFns cur)\<rparr> # below,
            reports = r @ []\<rparr>"
        using CallExpression True arg by simp
      then show ?thesis by blast
    qed
  qed
qed simp_all

lemma visit_top:
  "\<exists>X Y. \<forall>below r.
     visit opts e \<lparr>wrappedScope = cur # below, reports = r\<rparr>
       = \<lparr>wrappedScope = X @ below, reports = r @ Y\<rparr>"
proof (cases e)
  case (OnCallExpression nd parent)
  show ?thesis
  proof (cases "wrapOpen opts nd parent")
    case None
    from onUnwrapCall_top [of opts nd cur] obtain cur' Y where
      "\<forall>below r. onUnwrapCall opts nd \<lparr>wrappedScope = cur # below, reports = r\<rparr>
         = \<lparr>wrappedScope = cur' # below, reports = r @ Y\<rparr>" by blast
    then have "\<forall>below r. visit opts e \<lparr>wrappedScope = cur # below, reports = r\<rparr>
         = \<lparr>wrappedScope = [cur'] @ below, reports = r @ Y\<rparr>"
      using OnCallExpression None by (simp add: onWrapCall_wrapOpen)
    then show ?thesis by blast
  next
    case (Some new)
    from onUnwrapCall_top [of opts nd new] obtain new' Y where
      "\<forall>below r. onUnwrapCall opts nd \<lparr>wrappedScope = new # below, reports = r\<rparr>
         = \<lparr>wrappedScope = new' # below, reports = r @ Y\<rparr>" by blast
    then have "\<forall>below r. visit opts e \<lparr>wrappedScope = cur # below, reports = r\<rparr>
         = \<lparr>wrappedScope = [new', cur] @ below, reports = r @ Y\<rparr>"
      using OnCallExpression Some by (simp add: onWrapCall_wrapOpen)
    then show ?thesis by blast
  qed
next
  case (OnFunction f)
  have "\<forall>below r. visit opts e \<lparr>wrappedScope = cur # below, reports = r\<rparr>
         = \<lparr>wrappedScope = [if fn cur \<noteq> f then cur else cur\<lparr>inFn := True\<rparr>] @ below,
            reports = r @ []\<rparr>"
    using OnFunction by (simp add: enterFunction_def)
  then show ?thesis by blast
next
  case (OnFunctionExit f)
  have "\<forall>below r. visit opts e \<lparr>wrappedScope = cur # below, reports = r\<rparr>
         = \<lparr>wrappedScope = (if fn cur \<noteq> f then [cur] else []) @ below,
            reports = r @ (if fn cur \<noteq> f then [] else snd (reconcile cur))\<rparr>"
    using OnFunctionExit by (simp add: exitFunction_def)
  then show ?thesis by blast
qed

lemma visit_retype:
  assumes "wrappedScope st = up @ sc # lower"
    and "length lower < length (wrappedScope (visit opts e st))"
  shows "visit opts e (st\<lparr>wrappedScope := retypeAt (length lower) t (wrappedScope st)\<rparr>)
         = (visit opts e st)
             \<lparr>wrappedScope := retypeAt (length lower) t (wrappedScope (visit opts e st))\<rparr>"
proof (cases up)
  case (Cons cur up2)
  from visit_top [of opts e cur] obtain X Y where top:
    "\<And>below r. visit opts e \<lparr>wrappedScope = cur # below, reports = r\<rparr>
         = \<lparr>wrappedScope = X @ below, reports = r @ Y\<rparr>" by blast
  have st: "st = \<lparr>wrappedScope = cur # (up2 @ sc # lower), reports = reports st\<rparr>"
    using assms(1) Cons by simp
  have a: "visit opts e st = \<lparr>wrappedScope = (X @ up2) @ sc # lower, reports = reports st @ Y\<rparr>"
    by (subst st) (simp add: top)
  have "st\<lparr>wrappedScope := retypeAt (length lower) t (wrappedScope st)\<rparr>
        = \<lparr>wrappedScope = cur # (up2 @ sc\<lparr>typeParameters := t\<rparr> # lower), reports = reports st\<rparr>"
    using assms(1) Cons retypeAt_append [of lower t "cur # up2" sc] by simp
  then have b: "visit opts e (st\<lparr>wrappedScope := retypeAt (length lower) t (wrappedScope st)\<rparr>)
        = \<lparr>wrappedScope = (X @ up2) @ sc\<lparr>typeParameters := t\<rparr> # lower, reports = reports st @ Y\<rparr>"
    by (simp add: top)
  show ?thesis
    unfolding b unfolding a using retypeAt_append [of lower t "X @ up2" sc] by simp
next
  case Nil
  then have stack: "wrappedScope st = sc # lower" using assms(1) by simp
  let ?st' = "st\<lparr>wrappedScope := sc\<lparr>typeParameters := t\<rparr> # lower\<rparr>"
  have st': "st\<lparr>wrappedScope := retypeAt (length lower) t (wrappedScope st)\<rparr> = ?st'"
    using stack by simp
  show ?thesis
  proof (cases e)
    case (OnCallExpression nd parent)
    show ?thesis
    proof (cases "wrapOpen opts nd parent")
      case None
      from onUnwrapCall_retype [OF stack, of opts nd t] obtain sc' where
        "wrappedScope (onUnwrapCall opts nd st) = sc' # lower"
        "onUnwrapCall opts nd ?st'
           = \<lparr>wrappedScope = sc'\<lparr>typeParameters := t\<rparr> # lower,
              reports = reports (onUnwrapCall opts nd st)\<rparr>" by blast
      then show ?thesis
        unfolding st' using OnCallExpression None
        by (simp add: onWrapCall_wrapOpen)
    next
      case (Some new)
      then have fresh: "\<not> inFn new" by (simp add: wrapOpen_fresh)
      have a: "visit opts e st = st\<lparr>wrappedScope := new # sc # lower\<rparr>"
        using OnCallExpression Some stack fresh
        by (simp add: onWrapCall_wrapOpen onUnwrapCall_not_entered)
      have b: "visit opts e ?st' = st\<lparr>wrappedScope := new # sc\<lparr>typeParameters := t\<rparr> # lower\<rparr>"
        using OnCallExpression Some fresh
        by (simp add: onWrapCall_wrapOpen onUnwrapCall_not_entered)
      show ?thesis
        unfolding st' b a using retypeAt_append [of lower t "[new]" sc] by simp
    qed
  next
    case (OnFunction f)
    then show ?thesis
      unfolding st' using stack by (simp add: enterFunction_def)
  next
    case (OnFunctionExit f)
    with assms(2) stack have "fn sc \<noteq> f"
      by (auto simp: exitFunction_def)
    then show ?thesis
      unfolding st' using stack OnFunctionExit by (simp add: exitFunction_def)
  qed
qed

lemma run_append: "run opts (xs @ ys) st = run opts ys (run opts xs st)"
  by (induction xs arbitrary: st) simp_all

lemma run_retype:
  "wrappedScope st = up @ sc # lower \<Longrightarrow> insideScope opts (length lower) evs st \<Longrightarrow>
   run opts evs (st\<lparr>wrappedScope := retypeAt (length lower) t (wrappedScope st)\<rparr>)
     = (run opts evs st)
         \<lparr>wrappedScope := retypeAt (length lower) t (wrappedScope (run opts evs st))\<rparr>"
proof (induction evs arbitrary: st up sc)
  case Nil
  then show ?case by simp
next
  case (Cons e evs)
  let ?v = "visit opts e st"
  from Cons.prems(2) have above: "length lower < length (wrappedScope ?v)"
    and inside: "insideScope opts (length lower) evs ?v" by simp_all
  have step: "visit opts e (st\<lparr>wrappedScope := retypeAt (length lower) t (wrappedScope st)\<rparr>)
      = ?v\<lparr>wrappedScope := retypeAt (length lower) t (wrappedScope ?v)\<rparr>"
    using Cons.prems(1) above by (rule visit_retype)
  have "wrappedScope st = (up @ [sc]) @ lower" using Cons.prems(1) by simp
  from visit_above [OF this, of opts e] obtain up' where up': "wrappedScope ?v = up' @ lower"
    by auto
  with above have "up' \<noteq> []" by auto
  then have "wrappedScope ?v = butlast up' @ last up' # lower"
    using up' by simp
  from Cons.IH [OF this inside] show ?case
    using step by simp
qed

lemma onUnwrapCall_keeps:
  assumes "wrappedScope st = sc # lower"
  shows "\<exists>sc'. wrappedScope (onUnwrapCall opts nd st) = sc' # lower
         \<and> fn sc' = fn sc \<and> callee sc' = callee sc \<and> typeParameters sc' = typeParameters sc"
  using assms
  by (cases "(opts, nd, st)" rule: onUnwrapCall.cases)
     (auto simp: context_report_def split: option.splits list.splits)

lemma visit_keeps:
  assumes "wrappedScope st = up @ sc # lower"
    and "length lower < length (wrappedScope (visit opts e st))"
  shows "\<exists>up' sc'. wrappedScope (visit opts e st) = up' @ sc' # lower
         \<and> fn sc' = fn sc \<and> callee sc' = callee sc \<and> typeParameters sc' = typeParameters sc"
proof (cases up)
  case (Cons cur up2)
  from visit_top [of opts e cur] obtain X Y where top:
    "\<And>below r. visit opts e \<lparr>wrappedScope = cur # below, reports = r\<rparr>
         = \<lparr>wrappedScope = X @ below, reports = r @ Y\<rparr>" by blast
  have st: "st = \<lparr>wrappedScope = cur # (up2 @ sc # lower), reports = reports st\<rparr>"
    using assms(1) Cons by simp
  have "visit opts e st = \<lparr>wrappedScope = (X @ up2) @ sc # lower, reports = reports st @ Y\<rparr>"
    by (subst st) (simp add: top)
  then have "wrappedScope (visit opts e st) = (X @ up2) @ sc # lower" by simp
  then show ?thesis by blast
next
  case Nil
  then have stack: "wrappedScope st = sc # lower" using assms(1) by simp
  show ?thesis
  proof (cases e)
    case (OnCallExpression nd parent)
    show ?thesis
    proof (cases "wrapOpen opts nd parent")
      case None
      from onUnwrapCall_keeps [OF stack, of opts nd] obtain sc' where
        "wrappedScope (onUnwrapCall opts nd st) = [] @ sc' # lower"
        "fn sc' = fn sc" "callee sc' = callee sc" "typeParameters sc' = typeParameters sc"
        by auto
      then show ?thesis
        using OnCallExpression None by (simp add: onWrapCall_wrapOpen)
    next
      case (Some new)
      then have fresh: "\<not> inFn new" by (simp add: wrapOpen_fresh)
      have "wrappedScope (visit opts e st) = [new] @ sc # lower"
        using OnCallExpression Some stack fresh
        by (simp add: onWrapCall_wrapOpen onUnwrapCall_not_entered)
      then show ?thesis by blast
    qed
  next
    case (OnFunction f)
    have "wrappedScope (visit opts e st) = [] @ sc # lower
        \<or> wrappedScope (visit opts e st) = [] @ sc\<lparr>inFn := True\<rparr> # lower"
      using stack OnFunction by (simp add: enterFunction_def)
    then show ?thesis by force
  next
    case (OnFunctionExit f)
    with assms(2) stack have "fn sc \<noteq> f"
      by (auto simp: exitFunction_def)
    then have "wrappedScope (visit opts e st) = [] @ sc # lower"
      using stack OnFunctionExit by (simp add: exitFunction_def)
    then show ?thesis by blast
  qed
qed

lemma run_keeps:
  "wrappedScope st = up @ sc # lower \<Longrightarrow> insideScope opts (length lower) evs st \<Longrightarrow>
   \<exists>up' sc'. wrappedScope (run opts evs st) = up' @ sc' # lower
     \<and> fn sc' = fn sc \<and> callee sc' = callee sc \<and> typeParameters sc' = typeParameters sc"
proof (induction evs arbitrary: st up sc)
  case Nil
  then show ?case by auto
next
  case (Cons e evs)
  let ?v = "visit opts e st"
  from Cons.prems(2) have above: "length lower < length (wrappedScope ?v)"
    and inside: "insideScope opts (length lower) evs ?v" by simp_all
  from visit_keeps [OF Cons.prems(1) above] obtain up1 sc1 where
    v: "wrappedScope ?v = up1 @ sc1 # lower"
    and same: "fn sc1 = fn sc" "callee sc1 = callee sc" "typeParameters sc1 = typeParameters sc"
    by blast
  from Cons.IH [OF v inside] show ?case using same by simp
qed

lemma wrapOpen_shape:
  assumes "wrapOpen opts w (Some (CallExpression p pcal ptps [f])) = Some opened"
  shows "\<exists>k cal tps args. w = CallExpression k cal tps args
           \<and> opened = \<lparr>fn = f, inFn = False, callee = cal, typeParameters = tps,
                        unwrappedFns = [], wrappedFns = []\<rparr>"
  using assms by (cases w) (auto split: if_splits)

section \<open>The fix text parsed\<close>

lemma splitOn_none: "c \<notin> set xs \<Longrightarrow> splitOn c xs = [xs]"
  by (induction xs) auto

lemma splitOn_append: "c \<notin> set xs \<Longrightarrow> splitOn c (xs @ c # ys) = xs # splitOn c ys"
  by (induction xs) auto

lemma trim_pad:
  assumes "set pre \<subseteq> {CHR '' ''}" and "set post \<subseteq> {CHR '' ''}"
  shows "trim (pre @ m @ post) = trim m"
proof -
  have a: "dropWhile (\<lambda>c. c = CHR '' '') (pre @ m @ post) = dropWhile (\<lambda>c. c = CHR '' '') (m @ post)"
    using assms(1) by (intro dropWhile_append2) auto
  have b: "dropWhile (\<lambda>c. c = CHR '' '') (rev post @ ys) = dropWhile (\<lambda>c. c = CHR '' '') ys" for ys
    using assms(2) by (intro dropWhile_append2) auto
  show ?thesis
  proof (cases "dropWhile (\<lambda>c. c = CHR '' '') m = []")
    case True
    then have all: "\<forall>c \<in> set m. c = CHR '' ''" by (simp add: dropWhile_eq_Nil_conv)
    have "\<forall>c \<in> set (pre @ m @ post). c = CHR '' ''"
      using assms all by auto
    then have none: "dropWhile (\<lambda>c. c = CHR '' '') (pre @ m @ post) = []"
      by (subst dropWhile_eq_Nil_conv)
    show ?thesis unfolding trim_def none True by simp
  next
    case False
    then obtain x where "x \<in> set m" "\<not> x = CHR '' ''"
      by (auto simp: dropWhile_eq_Nil_conv)
    then have "dropWhile (\<lambda>c. c = CHR '' '') (m @ post) = dropWhile (\<lambda>c. c = CHR '' '') m @ post"
      by (rule dropWhile_append1)
    then show ?thesis using a b by (simp add: trim_def)
  qed
qed

lemma trim_id:
  assumes "s \<noteq> []" and "hd s \<noteq> CHR '' ''" and "last s \<noteq> CHR '' ''"
  shows "trim s = s"
proof -
  have "dropWhile (\<lambda>c. c = CHR '' '') s = s"
    using assms(1,2) by (cases s) auto
  moreover have "dropWhile (\<lambda>c. c = CHR '' '') (rev s) = rev s"
    using assms(1,3) by (cases "rev s") (auto simp: last_rev [symmetric] hd_rev)
  ultimately show ?thesis by (simp add: trim_def)
qed

lemma splitOn_join:
  "ms \<noteq> [] \<Longrightarrow> \<forall>m \<in> set ms. CHR ''|'' \<notin> set m \<Longrightarrow> set pre \<subseteq> {CHR '' ''} \<Longrightarrow>
   map trim (splitOn (CHR ''|'') (pre @ join '' | '' ms)) = map trim ms"
proof (induction ms arbitrary: pre)
  case Nil
  then show ?case by simp
next
  case (Cons m ms)
  show ?case
  proof (cases ms)
    case Nil
    have "CHR ''|'' \<notin> set (pre @ m)" using Cons.prems by auto
    then have "splitOn (CHR ''|'') (pre @ m) = [pre @ m]" by (rule splitOn_none)
    moreover have "trim (pre @ m @ []) = trim m"
      using Cons.prems(3) by (intro trim_pad) simp_all
    ultimately show ?thesis using Nil by simp
  next
    case (Cons m2 rest)
    have nobar: "CHR ''|'' \<notin> set (pre @ m @ '' '')" using Cons.prems by auto
    have "pre @ join '' | '' (m # ms) = (pre @ m @ '' '') @ CHR ''|'' # ('' '' @ join '' | '' ms)"
      using Cons by simp
    then have "splitOn (CHR ''|'') (pre @ join '' | '' (m # ms))
        = (pre @ m @ '' '') # splitOn (CHR ''|'') ('' '' @ join '' | '' ms)"
      using splitOn_append [OF nobar] by simp
    moreover have "map trim (splitOn (CHR ''|'') ('' '' @ join '' | '' ms)) = map trim ms"
      using Cons.prems Cons by (intro Cons.IH) auto
    moreover have "trim (pre @ m @ '' '') = trim m"
      using Cons.prems(3) by (intro trim_pad) simp_all
    ultimately show ?thesis by simp
  qed
qed

lemma identifierLike_chars:
  "identifierLike nm \<Longrightarrow>
   nm \<noteq> [] \<and> CHR '' '' \<notin> set nm \<and> CHR ''|'' \<notin> set nm \<and> CHR ''<'' \<notin> set nm \<and> CHR ''>'' \<notin> set nm"
  by (auto simp: identifierLike_def list_all_iff)

lemma trim_identifier: "identifierLike nm \<Longrightarrow> trim nm = nm"
proof -
  assume a: "identifierLike nm"
  then have ne: "nm \<noteq> []" and nosp: "CHR '' '' \<notin> set nm"
    using identifierLike_chars by blast+
  from ne have "hd nm \<in> set nm" "last nm \<in> set nm" by simp_all
  with nosp have "hd nm \<noteq> CHR '' ''" "last nm \<noteq> CHR '' ''" by auto
  with ne show ?thesis by (intro trim_id)
qed

lemma trim_typeof: "identifierLike nm \<Longrightarrow> trim (''typeof '' @ nm) = ''typeof '' @ nm"
proof -
  assume a: "identifierLike nm"
  then have ne: "nm \<noteq> []" and nosp: "CHR '' '' \<notin> set nm"
    using identifierLike_chars by blast+
  from ne have "last nm \<in> set nm" by simp
  with nosp have "last nm \<noteq> CHR '' ''" by auto
  with ne have "last (''typeof '' @ nm) \<noteq> CHR '' ''" by simp
  then show ?thesis by (intro trim_id) simp_all
qed

lemma memberName_trim: "trim p = trim q \<Longrightarrow> memberName p = memberName q"
  by (simp add: memberName_def)

lemma memberName_typeof:
  assumes "identifierLike nm"
  shows "memberName (''typeof '' @ nm) = Some nm"
proof -
  have t: "trim (''typeof '' @ nm) = ''typeof '' @ nm" using assms by (rule trim_typeof)
  have d: "drop 7 (''typeof '' @ nm) = nm" by simp
  have k: "take 7 (''typeof '' @ nm) = ''typeof ''" by simp
  have i: "trim nm = nm" using assms by (rule trim_identifier)
  show ?thesis
    unfolding memberName_def Let_def t d k i using assms by simp
qed

lemma memberName_pieces:
  "map trim pieces = map trim (map (\<lambda>f. ''typeof '' @ f) nms) \<Longrightarrow> list_all identifierLike nms \<Longrightarrow>
   map memberName pieces = map Some nms"
proof (induction pieces arbitrary: nms)
  case Nil
  then show ?case by simp
next
  case (Cons p pieces)
  then obtain nm rest where nms: "nms = nm # rest" by (cases nms) auto
  with Cons.prems have "trim p = trim (''typeof '' @ nm)" "identifierLike nm" by simp_all
  then have "memberName p = Some nm"
    using memberName_trim [of p "''typeof '' @ nm"] memberName_typeof by simp
  moreover have "map memberName pieces = map Some rest"
    using Cons.prems nms by (intro Cons.IH) simp_all
  ultimately show ?case using nms by simp
qed

lemma typeofName_parseMember: "typeofName (parseMember j p) = memberName p"
  by (simp add: parseMember_def split: option.splits)

lemma typeofName_enumerate:
  "map typeofName (map (\<lambda>(k, p). parseMember (g k) p) (enumerate n pieces)) = map memberName pieces"
  by (induction pieces arbitrary: n) (simp_all add: typeofName_parseMember)

lemma notin_join: "c \<notin> set sep \<Longrightarrow> \<forall>m \<in> set ms. c \<notin> set m \<Longrightarrow> c \<notin> set (join sep ms)"
  by (induction sep ms rule: join.induct) auto

lemma trim_not_Nil:
  assumes "x \<in> set s" and "x \<noteq> CHR '' ''"
  shows "trim s \<noteq> []"
proof -
  let ?d = "dropWhile (\<lambda>c. c = CHR '' '') s"
  have ne: "?d \<noteq> []" using assms by (auto simp: dropWhile_eq_Nil_conv)
  then have "hd ?d \<noteq> CHR '' ''" using hd_dropWhile [of "\<lambda>c. c = CHR '' ''" s] by simp
  moreover have "hd ?d \<in> set (rev ?d)" using ne by simp
  ultimately have "dropWhile (\<lambda>c. c = CHR '' '') (rev ?d) \<noteq> []"
    by (auto simp: dropWhile_eq_Nil_conv)
  then show ?thesis by (simp add: trim_def)
qed

lemma parseTypeArgs_bracket:
  "CHR ''<'' \<notin> set J \<Longrightarrow> CHR ''>'' \<notin> set J \<Longrightarrow>
   parseTypeArgs i (CHR ''<'' # (J @ ''>'')) =
      (if trim J = [] then Some (TSTypeParameterInstantiation i [])
       else (case splitOn (CHR ''|'') J of
               [piece] \<Rightarrow> Some (TSTypeParameterInstantiation i [parseMember (Suc i) piece])
             | pieces \<Rightarrow>
                 Some (TSTypeParameterInstantiation i
                   [TSUnionType (Suc i)
                      (map (\<lambda>(k, piece). parseMember (i + 2 + 2 * k) piece)
                         (enumerate 0 pieces))])))"
  by (simp add: parseTypeArgs_def)

lemma parse_typeof_union:
  assumes ids: "list_all identifierLike nms"
    and J: "J = join '' | '' (map (\<lambda>f. ''typeof '' @ f) nms)"
    and whole: "txt = CHR ''<'' # (J @ ''>'')"
  shows "\<exists>tp'. parseTypeArgs i txt = Some tp' \<and> fixDenotes nms tp'"
proof -
  define ms where "ms = map (\<lambda>f. ''typeof '' @ f) nms"
  define pieces where "pieces = splitOn (CHR ''|'') J"
  have J': "J = join '' | '' ms" using J by (simp add: ms_def)
  have chars: "CHR ''<'' \<notin> set m \<and> CHR ''>'' \<notin> set m \<and> CHR ''|'' \<notin> set m" if "m \<in> set ms" for m
  proof -
    from that obtain nm where "nm \<in> set nms" "m = ''typeof '' @ nm" by (auto simp: ms_def)
    then show ?thesis using ids identifierLike_chars [of nm] by (auto simp: list_all_iff)
  qed
  have "CHR ''<'' \<notin> set J"
    unfolding J' using chars by (intro notin_join) simp_all
  moreover have "CHR ''>'' \<notin> set J"
    unfolding J' using chars by (intro notin_join) simp_all
  ultimately have inner: "CHR ''<'' \<notin> set J" "CHR ''>'' \<notin> set J" by blast+
  have shape: "parseTypeArgs i txt =
      (if trim J = [] then Some (TSTypeParameterInstantiation i [])
       else (case pieces of
               [piece] \<Rightarrow> Some (TSTypeParameterInstantiation i [parseMember (Suc i) piece])
             | pieces \<Rightarrow>
                 Some (TSTypeParameterInstantiation i
                   [TSUnionType (Suc i)
                      (map (\<lambda>(k, piece). parseMember (i + 2 + 2 * k) piece)
                         (enumerate 0 pieces))])))"
    unfolding whole pieces_def using inner by (rule parseTypeArgs_bracket)
  show ?thesis
  proof (cases nms)
    case Nil
    then have "trim J = []" by (simp add: trim_def J' ms_def)
    then have "parseTypeArgs i txt = Some (TSTypeParameterInstantiation i [])"
      using shape by simp
    then show ?thesis using Nil by simp
  next
    case (Cons n rest)
    then have "CHR ''t'' \<in> set J" by (cases rest) (auto simp: J' ms_def)
    then have full: "trim J \<noteq> []" by (rule trim_not_Nil) simp
    have "map trim (splitOn (CHR ''|'') ([] @ J)) = map trim ms"
      unfolding J' using Cons chars by (intro splitOn_join) (auto simp: ms_def)
    then have "map trim pieces = map trim (map (\<lambda>f. ''typeof '' @ f) nms)"
      by (simp add: pieces_def ms_def)
    then have names: "map memberName pieces = map Some nms"
      using ids by (intro memberName_pieces) simp_all
    show ?thesis
    proof (cases rest)
      case Nil
      with Cons names obtain p where p: "pieces = [p]" "memberName p = Some n"
        by (cases pieces) auto
      then have "parseTypeArgs i txt = Some (TSTypeParameterInstantiation i [parseMember (Suc i) p])"
        using shape full by simp
      then show ?thesis
        using Cons Nil p by (simp add: typeofName_parseMember)
    next
      case (Cons n2 rest2)
      with \<open>nms = n # rest\<close> names obtain p1 p2 ps
        where ps: "pieces = p1 # p2 # ps"
        by (cases pieces; cases "tl pieces") auto
      then have "parseTypeArgs i txt = Some (TSTypeParameterInstantiation i
            [TSUnionType (Suc i)
               (map (\<lambda>(k, piece). parseMember (i + 2 + 2 * k) piece) (enumerate 0 pieces))])"
        using shape full by simp
      then show ?thesis
        using \<open>nms = n # rest\<close> Cons names
          typeofName_enumerate [of "\<lambda>k. i + 2 + 2 * k" 0 pieces]
        by simp
    qed
  qed
qed

lemma fold_checkType_fix_None:
  "\<forall>r \<in> set out. fix_of r = None \<Longrightarrow>
   \<forall>r \<in> set (snd (snd (fold checkType ts (w, nf, out)))). fix_of r = None"
proof (induction ts arbitrary: w nf out)
  case Nil
  then show ?case by simp
next
  case (Cons t ts)
  obtain w' nf' out' where step: "checkType t (w, nf, out) = (w', nf', out')"
    by (cases "checkType t (w, nf, out)") auto
  then have "\<forall>r \<in> set out'. fix_of r = None"
    using Cons.prems by (auto split: option.splits if_splits)
  from Cons.IH [OF this, of w' nf'] show ?case using step by simp
qed

lemma checkTypeParameters_fix_None:
  "\<forall>r \<in> set (snd (snd (checkTypeParameters sc))). fix_of r = None"
proof -
  have "\<forall>r \<in> set (snd (snd (fold checkType ts (wrappedFns sc, False, [])))). fix_of r = None" for ts
    by (rule fold_checkType_fix_None) simp
  then show ?thesis
    by (auto simp: checkTypeParameters_def Let_def split: option.splits list.splits)
qed

lemma reconcile_fix:
  assumes "r \<in> set (snd (reconcile sc))" and "fix_of r \<noteq> None"
  shows "r = \<lparr>messageId = badWrap, node = AtExpr (callee sc), fix_of = Some (synthesizeFix sc)\<rparr>"
proof -
  obtain w nf out where ctp: "checkTypeParameters sc = (w, nf, out)"
    by (cases "checkTypeParameters sc") auto
  then have "\<forall>r \<in> set out. fix_of r = None"
    using checkTypeParameters_fix_None [of sc] by simp
  then show ?thesis
    using assms reconcile_reports [OF ctp] by (auto simp: Let_def split: if_splits)
qed

lemma parse_empty_text: "parseTypeArgs 40 ''<>'' = Some (TSTypeParameterInstantiation 40 [])"
  by code_simp

lemma parse_sample:
  "parseTypeArgs 40 ''<typeof f | typeof h>'' = Some (exUnion [exTypeof 42 ''f'', exTypeof 44 ''h''])"
  unfolding exUnion_def exTypeof_def by code_simp

section \<open>The argument of an unwrap call\<close>


section \<open>The claims\<close>

text \<open>
  C1. A recognized wrap construct is a scope on top of the stack after any sequence of
  listener calls. When its type-parameter list has exactly one parameter, every member of
  that parameter (the members of the union, or the parameter alone) is a \<^verbatim>\<open>typeof\<close>
  reference to an identifier, no name is declared twice, and the declared names are, as a
  set, the keys of \<^verbatim>\<open>unwrappedFns\<close>, then the exit of its function pops the scope and
  reports nothing.
\<close>

theorem consistent_wrap_reports_nothing:
  assumes "wrappedScope (run opts evs initial) = sc # upper"
    and "typeParameters sc = Some tp" and "params tp = [param]"
    and "wellFormed (typesOf param)"
    and "distinct (declaredNames (typesOf param))"
    and "set (declaredNames (typesOf param)) = set (Map_keys (unwrappedFns sc))"
  shows "exitFunction (fn sc) (run opts evs initial) =
           \<lparr>wrappedScope = upper, reports = reports (run opts evs initial)\<rparr>"
proof -
  have "scopeOk opts sc" using assms(1) by (rule reachable_scopeOk)
  then have "snd (reconcile sc) = []"
    using assms(2-6) by (intro reconcile_clean) (simp_all add: scopeOk_def)
  then show ?thesis using assms(1) by (simp add: exitFunction_def)
qed

theorem consistent_wrap_reports_nothing_witness:
  "exitFunction exFn
     (run exOptions (exOpen (Some (exUnion [exTypeof 42 ''h'', exTypeof 44 ''f''])) @ exBody) initial)
   = \<lparr>wrappedScope = [], reports = []\<rparr>"
proof -
  let ?tp = "exUnion [exTypeof 42 ''h'', exTypeof 44 ''f'']"
  let ?sc = "\<lparr>fn = exFn, inFn = True, callee = Identifier 3 ''wrap'',
             typeParameters = Some ?tp,
             unwrappedFns = [(''f'', exCall 33 ''f''), (''h'', exCall 23 ''h'')],
             wrappedFns = []\<rparr>"
  have s: "wrappedScope (run exOptions (exOpen (Some ?tp) @ exBody) initial) = ?sc # []"
    by (simp add: ex_defs)
  have r: "reports (run exOptions (exOpen (Some ?tp) @ exBody) initial) = []"
    by (simp add: ex_defs)
  have p: "params ?tp = [TSUnionType 41 [exTypeof 42 ''h'', exTypeof 44 ''f'']]"
    by (simp add: exUnion_def)
  show ?thesis
    using consistent_wrap_reports_nothing [OF s _ p] r
    by (simp add: exTypeof_def wellFormed_def Map_keys_def insert_commute)
qed

text \<open>
  C2, as amended. A wrap call \<open>w\<close>, the callee of a call of the function \<open>f\<close>, is recognized
  after the events \<open>pre\<close>; the events \<open>body\<close> keep its scope open and leave it, with at least
  one recorded unwrap call, as \<open>sc\<close>, the recorded names being identifier names. The only
  fix the exit of \<open>f\<close> can report is the one of \<^verbatim>\<open>badWrap\<close>, \<open>synthesizeFix sc\<close>. That edit
  applies to \<open>w\<close>, inserted after the callee when \<open>w\<close> has no type-parameter list and
  replacing the list otherwise, and its text parses. The checker run again on the result,
  that is on events \<open>pre'\<close> that leave the state \<open>pre\<close> leaves (the nodes around the wrap call
  are read again, \<open>pre\<close> itself will do), the new wrap call under its parent, \<open>body\<close> and the
  exit of \<open>f\<close>, pops the scope and reports what \<open>pre\<close> and \<open>body\<close> reported in the first run,
  and nothing more: the reconciliation of the construct reports nothing. The fix does not
  touch the body, whose own diagnostics (\<^verbatim>\<open>badUnwrapArg\<close>, those of nested constructs) are
  reported again.
\<close>

theorem fix_reconciles_cleanly:
  assumes "wrapOpen opts w (Some (CallExpression p w ptps [f])) = Some opened"
    and "run opts pre' initial = run opts pre initial"
    and "insideScope opts (length (wrappedScope (run opts pre initial))) body
           (run opts (pre @ [OnCallExpression w (Some (CallExpression p w ptps [f]))]) initial)"
    and "wrappedScope
           (run opts (pre @ OnCallExpression w (Some (CallExpression p w ptps [f])) # body) initial)
         = sc # wrappedScope (run opts pre initial)"
    and "unwrappedFns sc \<noteq> []"
    and "list_all identifierLike (Map_keys (unwrappedFns sc))"
  shows "(\<forall>r \<in> set (snd (reconcile sc)). fix_of r \<noteq> None \<longrightarrow>
            r = \<lparr>messageId = badWrap, node = AtExpr (callee sc),
                 fix_of = Some (synthesizeFix sc)\<rparr>)
       \<and> (\<exists>w'. applyFix i (synthesizeFix sc) w = Some w'
            \<and> run opts
                 (pre' @ OnCallExpression w' (Some (CallExpression p w' ptps [f])) # body
                  @ [OnFunctionExit f])
                 initial
               = \<lparr>wrappedScope = wrappedScope (run opts pre initial),
                  reports = reports
                    (run opts
                       (pre @ OnCallExpression w (Some (CallExpression p w ptps [f])) # body)
                       initial)\<rparr>)"
proof -
  let ?before = "run opts pre initial"
  let ?lower = "wrappedScope ?before"
  let ?st = "?before\<lparr>wrappedScope := opened # ?lower\<rparr>"
  let ?end = "run opts body ?st"
  from wrapOpen_shape [OF assms(1)] obtain k cal tps args
    where w: "w = CallExpression k cal tps args"
      and opened: "opened = \<lparr>fn = f, inFn = False, callee = cal, typeParameters = tps,
                              unwrappedFns = [], wrappedFns = []\<rparr>"
    by blast
  have fresh: "\<not> inFn opened" using opened by simp
  have open1: "visit opts (OnCallExpression w (Some (CallExpression p w ptps [f]))) ?before = ?st"
    using assms(1) fresh by (simp add: onWrapCall_wrapOpen onUnwrapCall_not_entered)
  have first: "run opts (pre @ OnCallExpression w (Some (CallExpression p w ptps [f])) # body) initial
      = ?end"
    by (simp add: run_append open1 del: visit.simps)
  have stack: "wrappedScope ?st = [] @ opened # ?lower" by simp
  have inside: "insideScope opts (length ?lower) body ?st"
    using assms(3) by (simp add: run_append open1 del: visit.simps)
  have top: "wrappedScope ?end = sc # ?lower" using assms(4) first by simp
  from run_keeps [OF stack inside] obtain up' sc' where
    kept: "wrappedScope ?end = up' @ sc' # ?lower"
      "fn sc' = fn opened" "callee sc' = callee opened" "typeParameters sc' = typeParameters opened"
    by blast
  from kept(1) top have "length (up' @ sc' # ?lower) = length (sc # ?lower)" by simp
  then have "up' = []" by simp
  with kept top have same: "fn sc = f" "callee sc = cal" "typeParameters sc = tps"
    using opened by simp_all
  define J where "J = join '' | '' (map (\<lambda>f. ''typeof '' @ f) (Map_keys (unwrappedFns sc)))"
  have whole: "fixText (unwrappedFns sc) = CHR ''<'' # (J @ ''>'')"
    by (simp add: fixText_def J_def)
  from parse_typeof_union [OF assms(6) J_def whole, of i] obtain tp'
    where parse: "parseTypeArgs i (fixText (unwrappedFns sc)) = Some tp'"
      and denotes: "fixDenotes (Map_keys (unwrappedFns sc)) tp'" by blast
  define w' where "w' = CallExpression k cal (Some tp') args"
  have applied: "applyFix i (synthesizeFix sc) w = Some w'"
    using same parse by (cases tps) (simp_all add: synthesizeFix_def w w'_def)
  have "wrapOpen opts w' (Some (CallExpression p w' ptps [f]))
      = Some (opened\<lparr>typeParameters := Some tp'\<rparr>)"
    using assms(1) by (simp add: w w'_def opened split: if_splits)
  then have open2: "visit opts (OnCallExpression w' (Some (CallExpression p w' ptps [f])))
        (run opts pre' initial)
      = ?before\<lparr>wrappedScope := opened\<lparr>typeParameters := Some tp'\<rparr> # ?lower\<rparr>"
    using fresh assms(2) by (simp add: onWrapCall_wrapOpen onUnwrapCall_not_entered)
  have "wrappedScope (run opts (pre @ OnCallExpression w (Some (CallExpression p w ptps [f])) # body)
                        initial) = sc # ?lower"
    using assms(4) .
  then have ok: "scopeOk opts sc" by (rule reachable_scopeOk)
  have "Map_keys (unwrappedFns sc) \<noteq> []"
    using assms(5) by (simp add: Map_keys_def)
  with denotes obtain param where prm: "params tp' = [param]" "wellFormed (typesOf param)"
      "declaredNames (typesOf param) = Map_keys (unwrappedFns sc)"
    using fixDenotes_clean by blast
  have clean: "snd (reconcile (sc\<lparr>typeParameters := Some tp'\<rparr>)) = []"
    using ok prm by (intro reconcile_clean [of _ tp' param]) (simp_all add: scopeOk_def)
  have "run opts body (?st\<lparr>wrappedScope := retypeAt (length ?lower) (Some tp') (wrappedScope ?st)\<rparr>)
      = ?end\<lparr>wrappedScope := retypeAt (length ?lower) (Some tp') (wrappedScope ?end)\<rparr>"
    using stack inside by (rule run_retype)
  then have "run opts body (?before\<lparr>wrappedScope := opened\<lparr>typeParameters := Some tp'\<rparr> # ?lower\<rparr>)
      = ?end\<lparr>wrappedScope := sc\<lparr>typeParameters := Some tp'\<rparr> # ?lower\<rparr>"
    using top by simp
  then have again: "run opts
        (pre' @ OnCallExpression w' (Some (CallExpression p w' ptps [f])) # body @ [OnFunctionExit f])
        initial
      = \<lparr>wrappedScope = ?lower, reports = reports ?end\<rparr>"
    using clean same(1) by (simp add: run_append open2 exitFunction_def del: visit.simps(1))
  have onlyfix: "\<forall>r \<in> set (snd (reconcile sc)). fix_of r \<noteq> None \<longrightarrow>
            r = \<lparr>messageId = badWrap, node = AtExpr (callee sc),
                 fix_of = Some (synthesizeFix sc)\<rparr>"
    using reconcile_fix by blast
  show ?thesis
    using onlyfix applied again unfolding first by blast
qed

theorem fix_reconciles_cleanly_witness:
  "applyFix 40
     (synthesizeFix (hd (wrappedScope (run exOptions (exOpen None @ exBody) initial))))
     (exWrapCall None)
     = Some (exWrapCall (Some (exUnion [exTypeof 42 ''f'', exTypeof 44 ''h''])))
   \<and> run exOptions
       (exOpen (Some (exUnion [exTypeof 42 ''f'', exTypeof 44 ''h''])) @ exBody @ [OnFunctionExit exFn])
       initial
     = \<lparr>wrappedScope = [], reports = []\<rparr>"
proof -
  let ?tp = "exUnion [exTypeof 42 ''f'', exTypeof 44 ''h'']"
  let ?opened = "\<lparr>fn = exFn, inFn = False, callee = Identifier 3 ''wrap'',
             typeParameters = None, unwrappedFns = [], wrappedFns = []\<rparr>"
  let ?sc = "\<lparr>fn = exFn, inFn = True, callee = Identifier 3 ''wrap'',
             typeParameters = None,
             unwrappedFns = [(''f'', exCall 33 ''f''), (''h'', exCall 23 ''h'')],
             wrappedFns = []\<rparr>"
  let ?pre = "\<lambda>tps. [OnCallExpression (exConstruct tps) (Some (OtherNode 0))]"
  let ?w = "exWrapCall None"
  let ?body = "OnFunction exFn # exBody"
  have o: "wrapOpen exOptions ?w (Some (CallExpression 1 ?w None [exFn])) = Some ?opened"
    by (simp add: ex_defs)
  have p: "run exOptions (?pre (Some ?tp)) initial = run exOptions (?pre None) initial"
    by (simp add: ex_defs)
  have l: "wrappedScope (run exOptions (?pre None) initial) = []"
    by (simp add: ex_defs)
  have i: "insideScope exOptions (length (wrappedScope (run exOptions (?pre None) initial))) ?body
        (run exOptions (?pre None @ [OnCallExpression ?w (Some (CallExpression 1 ?w None [exFn]))])
           initial)"
    by (simp add: ex_defs)
  have e: "wrappedScope
        (run exOptions (?pre None @ OnCallExpression ?w (Some (CallExpression 1 ?w None [exFn])) # ?body)
           initial)
      = ?sc # wrappedScope (run exOptions (?pre None) initial)"
    by (simp add: ex_defs)
  have r: "reports
        (run exOptions (?pre None @ OnCallExpression ?w (Some (CallExpression 1 ?w None [exFn])) # ?body)
           initial) = []"
    by (simp add: ex_defs)
  have ids: "list_all identifierLike (Map_keys (unwrappedFns ?sc))"
    by (simp add: Map_keys_def identifierLike_def)
  have direct: "applyFix 40 (synthesizeFix ?sc) ?w = Some (exWrapCall (Some ?tp))"
    using parse_sample by (simp add: synthesizeFix_def fixText_def Map_keys_def exWrapCall_def)
  have sc: "hd (wrappedScope (run exOptions (exOpen None @ exBody) initial)) = ?sc"
    by (simp add: ex_defs)
  from fix_reconciles_cleanly [OF o p i e _ ids, of 40] obtain w'
    where applied: "applyFix 40 (synthesizeFix ?sc) ?w = Some w'"
      and rerun: "run exOptions
                 (?pre (Some ?tp) @ OnCallExpression w' (Some (CallExpression 1 w' None [exFn])) # ?body
                  @ [OnFunctionExit exFn])
                 initial
               = \<lparr>wrappedScope = wrappedScope (run exOptions (?pre None) initial),
                  reports = reports
                    (run exOptions
                       (?pre None @ OnCallExpression ?w (Some (CallExpression 1 ?w None [exFn])) # ?body)
                       initial)\<rparr>"
    by auto
  from applied direct have w': "w' = exWrapCall (Some ?tp)" by simp
  have "exOpen (Some ?tp) @ exBody @ [OnFunctionExit exFn]
      = ?pre (Some ?tp) @ OnCallExpression w' (Some (CallExpression 1 w' None [exFn])) # ?body
        @ [OnFunctionExit exFn]"
    unfolding w' by (simp add: exOpen_def exConstruct_def)
  then have "run exOptions (exOpen (Some ?tp) @ exBody @ [OnFunctionExit exFn]) initial
      = \<lparr>wrappedScope = [], reports = []\<rparr>"
    using rerun l r by simp
  then show ?thesis using direct sc by simp
qed

text \<open>
  C2 as stated fails. A construct without type parameters and without unwrap calls gets
  the fix \<^verbatim>\<open><>\<close>; applied to the wrap call, that text makes a list without parameter, and
  the second run reports \<^verbatim>\<open>missingTypeParamInWrap\<close> and \<^verbatim>\<open>badWrap\<close> again, with the same
  text as fix. And a construct whose body holds \<^verbatim>\<open>unwrap(5)\<close> still gets \<^verbatim>\<open>badUnwrapArg\<close> in
  the second run, after a fix that makes its reconciliation clean.
\<close>

theorem fix_not_idempotent_counterexample:
  "reports (run exOptions (exOpen None @ [OnFunctionExit exFn]) initial)
     = [\<lparr>messageId = missingTypeParamInWrap, node = AtExpr (Identifier 3 ''wrap''), fix_of = None\<rparr>,
        \<lparr>messageId = badWrap, node = AtExpr (Identifier 3 ''wrap''),
         fix_of = Some (insertTextAfter (AtExpr (Identifier 3 ''wrap'')) ''<>'')\<rparr>]
   \<and> applyFix 40 (insertTextAfter (AtExpr (Identifier 3 ''wrap'')) ''<>'') (exWrapCall None)
     = Some (exWrapCall (Some (TSTypeParameterInstantiation 40 [])))
   \<and> reports (run exOptions
         (exOpen (Some (TSTypeParameterInstantiation 40 [])) @ [OnFunctionExit exFn]) initial)
     = [\<lparr>messageId = missingTypeParamInWrap, node = AtExpr (Identifier 3 ''wrap''), fix_of = None\<rparr>,
        \<lparr>messageId = badWrap, node = AtExpr (Identifier 3 ''wrap''),
         fix_of = Some (replaceText (AtTypeArgs (TSTypeParameterInstantiation 40 [])) ''<>'')\<rparr>]
   \<and> fix_of (last (reports (run exOptions
         (exOpen None @ exBody @ [OnCallExpression exLiteralUnwrap (Some (OtherNode 8)),
                                  OnFunctionExit exFn]) initial)))
     = Some (insertTextAfter (AtExpr (Identifier 3 ''wrap'')) ''<typeof f | typeof h>'')
   \<and> applyFix 40 (insertTextAfter (AtExpr (Identifier 3 ''wrap'')) ''<typeof f | typeof h>'')
       (exWrapCall None)
     = Some (exWrapCall (Some (exUnion [exTypeof 42 ''f'', exTypeof 44 ''h''])))
   \<and> reports (run exOptions
         (exOpen (Some (exUnion [exTypeof 42 ''f'', exTypeof 44 ''h''])) @ exBody
          @ [OnCallExpression exLiteralUnwrap (Some (OtherNode 8)), OnFunctionExit exFn]) initial)
     = [\<lparr>messageId = badUnwrapArg, node = AtExpr exLiteralUnwrap, fix_of = None\<rparr>]"
proof -
  have one: "applyFix 40 (insertTextAfter (AtExpr (Identifier 3 ''wrap'')) ''<>'') (exWrapCall None)
     = Some (exWrapCall (Some (TSTypeParameterInstantiation 40 [])))"
    using parse_empty_text by (simp add: exWrapCall_def)
  have two: "applyFix 40 (insertTextAfter (AtExpr (Identifier 3 ''wrap'')) ''<typeof f | typeof h>'')
       (exWrapCall None)
     = Some (exWrapCall (Some (exUnion [exTypeof 42 ''f'', exTypeof 44 ''h''])))"
    using parse_sample by (simp add: exWrapCall_def)
  show ?thesis
    unfolding one two
    by (simp add: ex_defs exitFunction_def reconcile_def checkTypeParameters_def synthesizeFix_def
          fixText_def Map_keys_def context_report_def)
qed

text \<open>
  C3, as amended. From a state whose active scope is entered, after \<^verbatim>\<open>onUnwrapCall\<close> has
  seen the nodes \<open>calls\<close> in order: the scopes below are as they were, \<^verbatim>\<open>unwrappedFns\<close>
  maps every name to the call site of its last recognized unwrap among \<open>calls\<close> (to what
  it held before, for a name not among them), and its keys are in the order of first
  insertion. A later unwrap of a name replaces the recorded node and leaves the keys as
  they are.
\<close>

theorem unwrappedFns_last_call_site:
  assumes "wrappedScope st = sc # upper" and "inFn sc"
    and "st' = fold (onUnwrapCall opts) calls st"
  shows "tl (wrappedScope st') = upper
       \<and> (\<forall>nm. Map_get nm (unwrappedFns (hd (wrappedScope st'))) =
             (case filter (\<lambda>(k, c). k = nm) (recognizedUnwraps opts calls) of
                [] \<Rightarrow> Map_get nm (unwrappedFns sc)
              | r # rs \<Rightarrow> Some (snd (last (r # rs)))))
       \<and> Map_keys (unwrappedFns (hd (wrappedScope st'))) =
           firstSeen (map fst (recognizedUnwraps opts calls)) (Map_keys (unwrappedFns sc))"
  using fold_onUnwrapCall_entered [OF assms(1,2), of opts calls] assms(3)
  by (simp add: Map_get_fold_Map_set Map_keys_fold_Map_set)

theorem unwrappedFns_last_call_site_witness:
  "Map_get ''f'' (unwrappedFns (hd (wrappedScope
      (fold (onUnwrapCall exOptions) exCalls (run exOptions (exOpen None) initial)))))
     = Some (exCall 33 ''f'')
   \<and> Map_keys (unwrappedFns (hd (wrappedScope
      (fold (onUnwrapCall exOptions) exCalls (run exOptions (exOpen None) initial)))))
     = [''f'', ''h'']"
proof -
  let ?sc = "\<lparr>fn = exFn, inFn = True, callee = Identifier 3 ''wrap'',
             typeParameters = None, unwrappedFns = [], wrappedFns = []\<rparr>"
  have s: "wrappedScope (run exOptions (exOpen None) initial) = ?sc # []"
    by (simp add: ex_defs)
  have rec: "recognizedUnwraps exOptions exCalls =
      [(''f'', exCall 13 ''f''), (''h'', exCall 23 ''h''), (''f'', exCall 33 ''f'')]"
    by (simp add: exCalls_def ex_defs)
  show ?thesis
    using unwrappedFns_last_call_site [OF s _ refl, of exOptions exCalls] rec
    by (simp add: firstSeen_def Map_keys_def)
qed

text \<open>
  C3 as stated fails. In the sample body \<open>f\<close> is unwrapped twice: after the first call
  \<^verbatim>\<open>unwrappedFns\<close> holds that call for \<open>f\<close>, after the third it holds the third, a
  different node, and \<^verbatim>\<open>unwrapNotInWrap\<close> for \<open>f\<close> is anchored at the third.
\<close>

theorem unwrappedFns_first_call_site_counterexample:
  "Map_get ''f'' (unwrappedFns (hd (wrappedScope
      (run exOptions (exOpen None @ take 1 exBody) initial)))) = Some (exCall 13 ''f'')
   \<and> Map_get ''f'' (unwrappedFns (hd (wrappedScope
      (run exOptions (exOpen None @ exBody) initial)))) = Some (exCall 33 ''f'')
   \<and> exCall 33 ''f'' \<noteq> exCall 13 ''f''
   \<and> reports (run exOptions (exOpen None @ exBody @ [OnFunctionExit exFn]) initial) ! 1
       = \<lparr>messageId = unwrapNotInWrap, node = AtExpr (exCall 33 ''f''), fix_of = None\<rparr>"
  by (simp add: ex_defs exitFunction_def reconcile_def checkTypeParameters_def)

text \<open>
  C4. Declared \<open>{f, g}\<close> in one union, unwrapped \<open>{f, h}\<close>, the three names different:
  the exit reports, in this order, \<^verbatim>\<open>unwrapNotInWrap\<close> at the call recorded for \<open>h\<close>,
  \<^verbatim>\<open>wrappedFnNotUnwrapped\<close> at the type reference of \<open>g\<close>, and one \<^verbatim>\<open>badWrap\<close> at
  the wrap callee, and nothing else. The fix replaces the type-parameter list by the text
  that declares \<open>f\<close> and \<open>h\<close>, in the order of their first unwrap.
\<close>

theorem asymmetric_mismatch_reports:
  assumes "wrappedScope (run opts evs initial) = sc # upper"
    and "typeParameters sc = Some tp" and "params tp = [TSUnionType u ts]"
    and "wellFormed ts" and "distinct (declaredNames ts)"
    and "set (declaredNames ts) = {f, g}"
    and "set (Map_keys (unwrappedFns sc)) = {f, h}"
    and "f \<noteq> g" and "f \<noteq> h" and "g \<noteq> h"
    and "gType \<in> set ts" and "typeofName gType = Some g"
    and "Map_get h (unwrappedFns sc) = Some hCall"
  shows "exitFunction (fn sc) (run opts evs initial) =
           \<lparr>wrappedScope = upper,
            reports = reports (run opts evs initial)
              @ [\<lparr>messageId = unwrapNotInWrap, node = AtExpr hCall, fix_of = None\<rparr>,
                 \<lparr>messageId = wrappedFnNotUnwrapped, node = AtType gType, fix_of = None\<rparr>,
                 \<lparr>messageId = badWrap, node = AtExpr (callee sc),
                  fix_of = Some (replaceText (AtTypeArgs tp) (fixText (unwrappedFns sc)))\<rparr>]\<rparr>
         \<and> (fixText (unwrappedFns sc) = ''<typeof '' @ f @ '' | typeof '' @ h @ ''>''
            \<or> fixText (unwrappedFns sc) = ''<typeof '' @ h @ '' | typeof '' @ f @ ''>'')"
proof -
  let ?w = "zip (declaredNames ts) ts"
  let ?u = "unwrappedFns sc"
  have ok: "scopeOk opts sc" using assms(1) by (rule reachable_scopeOk)
  then have empty: "wrappedFns sc = []" and dist: "distinct (Map_keys ?u)"
    by (simp_all add: scopeOk_def)
  have ctp: "checkTypeParameters sc = (?w, False, [])"
    using checkTypeParameters_clean [OF empty assms(2,3)] assms(4,5) by simp
  have keys: "Map_keys ?w = declaredNames ts"
    using assms(4) by (simp add: Map_keys_zip length_declaredNames)
  have "filter (\<lambda>(k, nd). \<not> Map_has k ?w) ?u = filter (\<lambda>(k, nd). k = h) ?u"
  proof (rule filter_cong [OF refl])
    fix p assume "p \<in> set ?u"
    then have "fst p \<in> {f, h}" using assms(7) by (auto simp: Map_keys_def)
    then show "(case p of (k, nd) \<Rightarrow> \<not> Map_has k ?w) = (case p of (k, nd) \<Rightarrow> k = h)"
      using assms(6,8,9,10) keys by (cases p) (auto simp: Map_has_iff)
  qed
  then have us: "filter (\<lambda>(k, nd). \<not> Map_has k ?w) ?u = [(h, hCall)]"
    using filter_single_key [OF dist assms(13)] by simp
  have getg: "Map_get g ?w = Some gType"
    using assms(4,5,11,12) by (rule Map_get_zip_declared)
  have "filter (\<lambda>(k, nd). \<not> Map_has k ?u) ?w = filter (\<lambda>(k, nd). k = g) ?w"
  proof (rule filter_cong [OF refl])
    fix p assume "p \<in> set ?w"
    then have "fst p \<in> set (Map_keys ?w)" by (auto simp: Map_keys_def)
    then have "fst p \<in> {f, g}" using keys assms(6) by simp
    then show "(case p of (k, nd) \<Rightarrow> \<not> Map_has k ?u) = (case p of (k, nd) \<Rightarrow> k = g)"
      using assms(7,8,9,10) by (cases p) (auto simp: Map_has_iff)
  qed
  then have ws: "filter (\<lambda>(k, nd). \<not> Map_has k ?u) ?w = [(g, gType)]"
    using filter_single_key [OF _ getg] assms(5) keys by simp
  have out: "snd (reconcile sc) =
      [\<lparr>messageId = unwrapNotInWrap, node = AtExpr hCall, fix_of = None\<rparr>,
       \<lparr>messageId = wrappedFnNotUnwrapped, node = AtType gType, fix_of = None\<rparr>,
       \<lparr>messageId = badWrap, node = AtExpr (callee sc),
        fix_of = Some (replaceText (AtTypeArgs tp) (fixText (unwrappedFns sc)))\<rparr>]"
    using reconcile_reports [OF ctp] us ws assms(2) by (simp add: synthesizeFix_def)
  have "Map_keys ?u = [f, h] \<or> Map_keys ?u = [h, f]"
    using dist assms(7,9) by (rule two_element_list)
  then have fixed: "fixText ?u = ''<typeof '' @ f @ '' | typeof '' @ h @ ''>''
            \<or> fixText ?u = ''<typeof '' @ h @ '' | typeof '' @ f @ ''>''"
    by (auto simp: fixText_def)
  show ?thesis
    using assms(1) out fixed by (simp add: exitFunction_def)
qed

theorem asymmetric_mismatch_reports_witness:
  "reports (exitFunction exFn
      (run exOptions (exOpen (Some (exUnion [exTypeof 42 ''f'', exTypeof 44 ''g''])) @ exBody) initial))
   = [\<lparr>messageId = unwrapNotInWrap, node = AtExpr (exCall 23 ''h''), fix_of = None\<rparr>,
      \<lparr>messageId = wrappedFnNotUnwrapped, node = AtType (exTypeof 44 ''g''), fix_of = None\<rparr>,
      \<lparr>messageId = badWrap, node = AtExpr (Identifier 3 ''wrap''),
       fix_of = Some (replaceText (AtTypeArgs (exUnion [exTypeof 42 ''f'', exTypeof 44 ''g'']))
                        ''<typeof f | typeof h>'')\<rparr>]"
proof -
  let ?tp = "exUnion [exTypeof 42 ''f'', exTypeof 44 ''g'']"
  let ?sc = "\<lparr>fn = exFn, inFn = True, callee = Identifier 3 ''wrap'',
             typeParameters = Some ?tp,
             unwrappedFns = [(''f'', exCall 33 ''f''), (''h'', exCall 23 ''h'')],
             wrappedFns = []\<rparr>"
  have s: "wrappedScope (run exOptions (exOpen (Some ?tp) @ exBody) initial) = ?sc # []"
    by (simp add: ex_defs)
  have r: "reports (run exOptions (exOpen (Some ?tp) @ exBody) initial) = []"
    by (simp add: ex_defs)
  have p: "params ?tp = [TSUnionType 41 [exTypeof 42 ''f'', exTypeof 44 ''g'']]"
    by (simp add: exUnion_def)
  have t: "fixText (unwrappedFns ?sc) = ''<typeof f | typeof h>''"
    by (simp add: fixText_def Map_keys_def)
  show ?thesis
    using asymmetric_mismatch_reports
            [OF s _ p, of "''f''" "''g''" "''h''" "exTypeof 44 ''g''" "exCall 23 ''h''"] r t
    by (simp add: exTypeof_def wellFormed_def Map_keys_def)
qed

text \<open>
  C5. A wrap construct without type-parameter list, or with a list of zero or of two or
  more parameters: the exit reports \<^verbatim>\<open>missingTypeParamInWrap\<close> at the wrap callee, then
  \<^verbatim>\<open>unwrapNotInWrap\<close> for every recorded unwrap, then \<^verbatim>\<open>badWrap\<close> with the fix. So
  there is exactly one \<^verbatim>\<open>missingTypeParamInWrap\<close> and exactly one \<^verbatim>\<open>badWrap\<close>, the
  callee is the wrap identifier, and \<^verbatim>\<open>wrappedFns\<close> of the scope is still empty after
  the reconciliation.
\<close>

theorem missing_type_parameter_reports:
  assumes "wrappedScope (run opts evs initial) = sc # upper"
    and "case typeParameters sc of None \<Rightarrow> True | Some tp \<Rightarrow> length (params tp) \<noteq> 1"
  shows "exitFunction (fn sc) (run opts evs initial) =
           \<lparr>wrappedScope = upper,
            reports = reports (run opts evs initial)
              @ [\<lparr>messageId = missingTypeParamInWrap, node = AtExpr (callee sc), fix_of = None\<rparr>]
              @ map (\<lambda>(k, nd). \<lparr>messageId = unwrapNotInWrap, node = AtExpr nd, fix_of = None\<rparr>)
                    (unwrappedFns sc)
              @ [\<lparr>messageId = badWrap, node = AtExpr (callee sc),
                   fix_of = Some (synthesizeFix sc)\<rparr>]\<rparr>
         \<and> identifierName (callee sc) = Some (wrapName opts)
         \<and> wrappedFns (fst (reconcile sc)) = []
         \<and> filter (\<lambda>r. messageId r = missingTypeParamInWrap) (snd (reconcile sc))
             = [\<lparr>messageId = missingTypeParamInWrap, node = AtExpr (callee sc), fix_of = None\<rparr>]
         \<and> filter (\<lambda>r. messageId r = badWrap) (snd (reconcile sc))
             = [\<lparr>messageId = badWrap, node = AtExpr (callee sc),
                 fix_of = Some (synthesizeFix sc)\<rparr>]"
proof -
  have ok: "scopeOk opts sc" using assms(1) by (rule reachable_scopeOk)
  then have empty: "wrappedFns sc = []" by (simp add: scopeOk_def)
  have ctp: "checkTypeParameters sc =
     ([], True, [\<lparr>messageId = missingTypeParamInWrap, node = AtExpr (callee sc), fix_of = None\<rparr>])"
    using checkTypeParameters_missing [OF assms(2)] empty by simp
  have all: "filter (\<lambda>(k, nd). \<not> Map_has k ([] :: (string \<times> typeNode) list)) (unwrappedFns sc)
               = unwrappedFns sc"
    by (induction "unwrappedFns sc") auto
  have out: "snd (reconcile sc) =
      [\<lparr>messageId = missingTypeParamInWrap, node = AtExpr (callee sc), fix_of = None\<rparr>]
      @ map (\<lambda>(k, nd). \<lparr>messageId = unwrapNotInWrap, node = AtExpr nd, fix_of = None\<rparr>)
            (unwrappedFns sc)
      @ [\<lparr>messageId = badWrap, node = AtExpr (callee sc), fix_of = Some (synthesizeFix sc)\<rparr>]"
    using reconcile_reports [OF ctp] all by simp
  have scope: "wrappedFns (fst (reconcile sc)) = []"
    using reconcile_scope [OF ctp] by simp
  have exit: "exitFunction (fn sc) (run opts evs initial) =
      \<lparr>wrappedScope = upper, reports = reports (run opts evs initial) @ snd (reconcile sc)\<rparr>"
    using assms(1) by (simp add: exitFunction_def)
  show ?thesis
    using ok exit scope
    by (simp add: out scopeOk_def filter_messageId_unwrapNotInWrap)
qed

theorem missing_type_parameter_reports_witness:
  "reports (exitFunction exFn (run exOptions (exOpen None @ exBody) initial))
   = [\<lparr>messageId = missingTypeParamInWrap, node = AtExpr (Identifier 3 ''wrap''), fix_of = None\<rparr>,
      \<lparr>messageId = unwrapNotInWrap, node = AtExpr (exCall 33 ''f''), fix_of = None\<rparr>,
      \<lparr>messageId = unwrapNotInWrap, node = AtExpr (exCall 23 ''h''), fix_of = None\<rparr>,
      \<lparr>messageId = badWrap, node = AtExpr (Identifier 3 ''wrap''),
       fix_of = Some (insertTextAfter (AtExpr (Identifier 3 ''wrap'')) ''<typeof f | typeof h>'')\<rparr>]"
proof -
  let ?sc = "\<lparr>fn = exFn, inFn = True, callee = Identifier 3 ''wrap'',
             typeParameters = None,
             unwrappedFns = [(''f'', exCall 33 ''f''), (''h'', exCall 23 ''h'')],
             wrappedFns = []\<rparr>"
  have s: "wrappedScope (run exOptions (exOpen None @ exBody) initial) = ?sc # []"
    by (simp add: ex_defs)
  have r: "reports (run exOptions (exOpen None @ exBody) initial) = []"
    by (simp add: ex_defs)
  show ?thesis
    using missing_type_parameter_reports [OF s] r
    by (simp add: synthesizeFix_def fixText_def Map_keys_def)
qed



text \<open>
  C7. An inner scope on top of an outer one. During all events that keep the inner scope
  open, whatever they record or report, the outer scope and the scopes below it stay on
  the stack as they were when the inner scope was opened. When an event \<open>e\<close> closes the
  inner scope, the stack is again the outer scope, unchanged, on the ones below; the exit
  of the outer function would then report the reconciliation of that unchanged scope; and
  any later events act as they do from the outer scope as it was, with no inner construct
  in between: the scopes they lead to and the diagnostics and fixes they add are the same.
\<close>

theorem nested_scopes_independent:
  assumes "wrappedScope st = inner # outer # rest"
    and "insideScope opts (Suc (length rest)) evs st"
    and "st1 = visit opts e (run opts evs st)"
    and "length (wrappedScope st1) = Suc (length rest)"
  shows "(\<forall>k. \<exists>up. up \<noteq> [] \<and> wrappedScope (run opts (take k evs) st) = up @ outer # rest)
       \<and> wrappedScope st1 = outer # rest
       \<and> exitFunction (fn outer) st1 =
           \<lparr>wrappedScope = rest, reports = reports st1 @ snd (reconcile outer)\<rparr>
       \<and> run opts later st1 =
           \<lparr>wrappedScope =
              wrappedScope (run opts later \<lparr>wrappedScope = outer # rest, reports = []\<rparr>),
            reports = reports st1
              @ reports (run opts later \<lparr>wrappedScope = outer # rest, reports = []\<rparr>)\<rparr>"
proof -
  have start: "wrappedScope st = [inner] @ outer # rest" using assms(1) by simp
  have during: "\<exists>up. up \<noteq> [] \<and> wrappedScope (run opts (take k evs) st) = up @ outer # rest"
    for k
    using run_above [OF start, of opts "take k evs"] insideScope_take [OF assms(2), of k]
    by simp
  from run_above [OF start, of opts evs] assms(2) obtain up
    where up: "up \<noteq> []" "wrappedScope (run opts evs st) = up @ outer # rest"
    by auto
  from visit_above [OF up(2,1), of opts e] obtain up'
    where "wrappedScope st1 = up' @ outer # rest" using assms(3) by blast
  with assms(4) have closed: "wrappedScope st1 = outer # rest" by simp
  have exit: "exitFunction (fn outer) st1 =
           \<lparr>wrappedScope = rest, reports = reports st1 @ snd (reconcile outer)\<rparr>"
    using closed by (simp add: exitFunction_def)
  have later: "run opts later st1 =
           \<lparr>wrappedScope =
              wrappedScope (run opts later \<lparr>wrappedScope = outer # rest, reports = []\<rparr>),
            reports = reports st1
              @ reports (run opts later \<lparr>wrappedScope = outer # rest, reports = []\<rparr>)\<rparr>"
    using run_reports_split [of opts later st1] closed by simp
  show ?thesis using during closed exit later by blast
qed

theorem nested_scopes_independent_witness:
  "wrappedScope (run exOptions (exOuterEvents @ exInnerBody @ [OnFunctionExit exInnerFn]) initial)
     = [\<lparr>fn = exFn, inFn = True, callee = Identifier 3 ''wrap'',
         typeParameters = Some (exUnion [exTypeof 42 ''f'', exTypeof 44 ''h'']),
         unwrappedFns = [(''f'', exCall 33 ''f''), (''h'', exCall 23 ''h'')],
         wrappedFns = []\<rparr>]
   \<and> reports (run exOptions
         (exOuterEvents @ exInnerBody @ [OnFunctionExit exInnerFn, OnFunctionExit exFn]) initial)
     = reports (run exOptions (exOuterEvents @ exInnerBody @ [OnFunctionExit exInnerFn]) initial)"
proof -
  let ?tp = "exUnion [exTypeof 42 ''f'', exTypeof 44 ''h'']"
  let ?outer = "\<lparr>fn = exFn, inFn = True, callee = Identifier 3 ''wrap'',
             typeParameters = Some ?tp,
             unwrappedFns = [(''f'', exCall 33 ''f''), (''h'', exCall 23 ''h'')],
             wrappedFns = []\<rparr>"
  let ?inner = "\<lparr>fn = exInnerFn, inFn = False, callee = Identifier 63 ''wrap'',
             typeParameters = None, unwrappedFns = [], wrappedFns = []\<rparr>"
  let ?st = "run exOptions exOuterEvents initial"
  have s: "wrappedScope ?st = ?inner # ?outer # []"
    by (simp add: exOuterEvents_def ex_defs ex_inner_defs)
  have i: "insideScope exOptions (Suc (length ([] :: WrapScope list))) exInnerBody ?st"
    by (simp add: exOuterEvents_def ex_defs ex_inner_defs)
  have l: "length (wrappedScope (visit exOptions (OnFunctionExit exInnerFn)
             (run exOptions exInnerBody ?st))) = Suc (length ([] :: WrapScope list))"
    by (simp add: exOuterEvents_def ex_defs ex_inner_defs exitFunction_def)
  let ?st1 = "visit exOptions (OnFunctionExit exInnerFn) (run exOptions exInnerBody ?st)"
  note nested = nested_scopes_independent [OF s i refl l, of "[OnFunctionExit exFn]"]
  from nested have closed: "wrappedScope ?st1 = [?outer]" by blast
  from nested have later: "run exOptions [OnFunctionExit exFn] ?st1 =
      \<lparr>wrappedScope = wrappedScope
         (run exOptions [OnFunctionExit exFn] \<lparr>wrappedScope = [?outer], reports = []\<rparr>),
       reports = reports ?st1
         @ reports (run exOptions [OnFunctionExit exFn] \<lparr>wrappedScope = [?outer], reports = []\<rparr>)\<rparr>"
    by blast
  have clean: "reports (run exOptions [OnFunctionExit exFn] \<lparr>wrappedScope = [?outer], reports = []\<rparr>)
      = []"
    by (simp add: ex_defs exitFunction_def reconcile_def checkTypeParameters_def)
  have same: "reports (run exOptions [OnFunctionExit exFn] ?st1) = reports ?st1"
    by (subst later) (simp only: clean rule_state.simps append_Nil2)
  have one: "run exOptions (exOuterEvents @ exInnerBody @ [OnFunctionExit exInnerFn]) initial = ?st1"
    by (simp add: run_append)
  have two: "run exOptions
         (exOuterEvents @ exInnerBody @ [OnFunctionExit exInnerFn, OnFunctionExit exFn]) initial
       = run exOptions [OnFunctionExit exFn] ?st1"
    by (simp add: run_append)
  show ?thesis
    unfolding one two using closed same by (rule conjI)
qed

text \<open>
  C8. With no active scope, or with an active scope whose body is not entered yet,
  \<^verbatim>\<open>onUnwrapCall\<close> leaves the state as it is on a call of the unwrap identifier, whatever
  its arguments: no diagnostic, no change of any scope. The whole \<^verbatim>\<open>CallExpression\<close>
  listener reports nothing on such a node either, and when the wrap and unwrap names
  differ it leaves the state as it is (with equal names \<^verbatim>\<open>onWrapCall\<close> may open a scope
  for the same node).
\<close>

theorem unwrap_outside_body_ignored:
  assumes "wrappedScope st = [] \<or> \<not> inFn (hd (wrappedScope st))"
    and "nd = CallExpression i (Identifier j (unwrapName opts)) tps args"
  shows "onUnwrapCall opts nd st = st
       \<and> reports (visit opts (OnCallExpression nd parent) st) = reports st
       \<and> (wrapName opts \<noteq> unwrapName opts \<longrightarrow> visit opts (OnCallExpression nd parent) st = st)"
proof -
  have idle: "onUnwrapCall opts nd st = st"
    using assms by (cases "wrappedScope st") auto
  have quiet: "reports (visit opts (OnCallExpression nd parent) st) = reports st"
  proof (cases "wrapOpen opts nd parent")
    case None
    then show ?thesis using idle by (simp add: onWrapCall_wrapOpen)
  next
    case (Some new)
    then have "\<not> inFn new" by (simp add: wrapOpen_fresh)
    then have "onUnwrapCall opts nd (st\<lparr>wrappedScope := new # wrappedScope st\<rparr>)
        = st\<lparr>wrappedScope := new # wrappedScope st\<rparr>"
      by (intro onUnwrapCall_not_entered [of _ new "wrappedScope st"]) simp_all
    then show ?thesis using Some by (simp add: onWrapCall_wrapOpen)
  qed
  have "visit opts (OnCallExpression nd parent) st = st" if "wrapName opts \<noteq> unwrapName opts"
    using that idle assms(2) by simp
  then show ?thesis using idle quiet by blast
qed

theorem unwrap_outside_body_ignored_witness:
  "visit exOptions (OnCallExpression exLiteralUnwrap (Some (OtherNode 5)))
     (run exOptions (take 2 (exOpen None)) initial)
   = run exOptions (take 2 (exOpen None)) initial"
proof -
  have s: "wrappedScope (run exOptions (take 2 (exOpen None)) initial) = []
         \<or> \<not> inFn (hd (wrappedScope (run exOptions (take 2 (exOpen None)) initial)))"
    by (simp add: ex_defs)
  have n: "exLiteralUnwrap = CallExpression 50 (Identifier 51 (unwrapName exOptions)) None [OtherNode 52]"
    by (simp add: ex_defs)
  show ?thesis
    using unwrap_outside_body_ignored [OF s n, where parent = "Some (OtherNode 5)"]
    by (simp add: exOptions_def)
qed

text \<open>
  C9. On a call of the unwrap identifier with no argument, or with two or more,
  \<^verbatim>\<open>onUnwrapCall\<close> leaves the state as it is, in every state and so in an entered wrap
  body: no \<^verbatim>\<open>badUnwrapArg\<close>, nothing recorded. The whole \<^verbatim>\<open>CallExpression\<close> listener
  reports nothing on such a node and records nothing: every scope keeps its
  \<^verbatim>\<open>unwrappedFns\<close>, and a scope that \<^verbatim>\<open>onWrapCall\<close> opens for the node has none. When
  the wrap and unwrap names differ the listener leaves the state as it is.
\<close>

theorem unwrap_arity_ignored:
  assumes "length args \<noteq> 1"
    and "nd = CallExpression i (Identifier j (unwrapName opts)) tps args"
  shows "onUnwrapCall opts nd st = st
       \<and> reports (visit opts (OnCallExpression nd parent) st) = reports st
       \<and> (map unwrappedFns (wrappedScope (visit opts (OnCallExpression nd parent) st))
            = map unwrappedFns (wrappedScope st)
          \<or> map unwrappedFns (wrappedScope (visit opts (OnCallExpression nd parent) st))
            = [] # map unwrappedFns (wrappedScope st))
       \<and> (wrapName opts \<noteq> unwrapName opts \<longrightarrow> visit opts (OnCallExpression nd parent) st = st)"
proof -
  have idle: "onUnwrapCall opts nd s = s" for s
    using assms by (auto split: list.splits)
  have v: "visit opts (OnCallExpression nd parent) st = onWrapCall opts nd parent st"
    by (simp add: idle)
  show ?thesis
  proof (cases "wrapOpen opts nd parent")
    case None
    then have "onWrapCall opts nd parent st = st" by (simp add: onWrapCall_wrapOpen)
    then show ?thesis unfolding v using idle [of st] by simp
  next
    case (Some new)
    then have fresh: "unwrappedFns new = []" by (simp add: wrapOpen_fresh)
    from Some assms(2) have same: "wrapName opts = unwrapName opts"
      using wrapOpen_callee [of opts i "Identifier j (unwrapName opts)" tps args parent new]
      by simp
    have "onWrapCall opts nd parent st = st\<lparr>wrappedScope := new # wrappedScope st\<rparr>"
      using Some by (simp add: onWrapCall_wrapOpen)
    then show ?thesis unfolding v using idle [of st] fresh same by simp
  qed
qed

theorem unwrap_arity_ignored_witness:
  "visit exOptions
     (OnCallExpression (CallExpression 50 (Identifier 51 ''unwrap'') None []) (Some (OtherNode 5)))
     (run exOptions (exOpen None) initial)
   = run exOptions (exOpen None) initial"
proof -
  have n: "CallExpression 50 (Identifier 51 ''unwrap'') None []
         = CallExpression 50 (Identifier 51 (unwrapName exOptions)) None []"
    by (simp add: ex_defs)
  have l: "length ([] :: expr list) \<noteq> 1" by simp
  show ?thesis
    using unwrap_arity_ignored [OF l n, where parent = "Some (OtherNode 5)"
                and st = "run exOptions (exOpen None) initial"]
    by (simp add: exOptions_def)
qed

text \<open>
  C10. A wrap construct that reconciles cleanly (as in C1), in whose entered body any
  number of unwrap calls with a bad argument are then seen: each adds its
  \<^verbatim>\<open>badUnwrapArg\<close>, and the exit of the function adds nothing, neither \<^verbatim>\<open>badWrap\<close> nor
  a fix.
\<close>

theorem badUnwrapArg_never_needs_fix:
  assumes "wrappedScope (run opts evs initial) = sc # upper" and "inFn sc"
    and "typeParameters sc = Some tp" and "params tp = [param]"
    and "wellFormed (typesOf param)"
    and "distinct (declaredNames (typesOf param))"
    and "set (declaredNames (typesOf param)) = set (Map_keys (unwrappedFns sc))"
    and "list_all (badUnwrapCall opts) bads"
  shows "exitFunction (fn sc) (fold (onUnwrapCall opts) bads (run opts evs initial)) =
           \<lparr>wrappedScope = upper,
            reports = reports (run opts evs initial)
              @ map (\<lambda>nd. \<lparr>messageId = badUnwrapArg, node = AtExpr nd, fix_of = None\<rparr>) bads\<rparr>"
proof -
  have ok: "scopeOk opts sc" using assms(1) by (rule reachable_scopeOk)
  then have "snd (reconcile sc) = []"
    using assms(3-7) by (intro reconcile_clean) (simp_all add: scopeOk_def)
  then show ?thesis
    using fold_onUnwrapCall_bad [OF assms(1,2,8)] assms(1) by (simp add: exitFunction_def)
qed

theorem badUnwrapArg_never_needs_fix_witness:
  "exitFunction exFn
     (fold (onUnwrapCall exOptions) [exLiteralUnwrap]
        (run exOptions (exOpen (Some (exUnion [exTypeof 42 ''h'', exTypeof 44 ''f''])) @ exBody) initial))
   = \<lparr>wrappedScope = [],
      reports = [\<lparr>messageId = badUnwrapArg, node = AtExpr exLiteralUnwrap, fix_of = None\<rparr>]\<rparr>"
proof -
  let ?tp = "exUnion [exTypeof 42 ''h'', exTypeof 44 ''f'']"
  let ?sc = "\<lparr>fn = exFn, inFn = True, callee = Identifier 3 ''wrap'',
             typeParameters = Some ?tp,
             unwrappedFns = [(''f'', exCall 33 ''f''), (''h'', exCall 23 ''h'')],
             wrappedFns = []\<rparr>"
  have s: "wrappedScope (run exOptions (exOpen (Some ?tp) @ exBody) initial) = ?sc # []"
    by (simp add: ex_defs)
  have r: "reports (run exOptions (exOpen (Some ?tp) @ exBody) initial) = []"
    by (simp add: ex_defs)
  have p: "params ?tp = [TSUnionType 41 [exTypeof 42 ''h'', exTypeof 44 ''f'']]"
    by (simp add: exUnion_def)
  have b: "list_all (badUnwrapCall exOptions) [exLiteralUnwrap]"
    by (simp add: ex_defs)
  show ?thesis
    using badUnwrapArg_never_needs_fix [OF s _ _ p _ _ _ b] r
    by (simp add: exTypeof_def wellFormed_def Map_keys_def insert_commute)
qed

end
